theory Spec2Isabelle
  imports Main
begin

section \<open>filesearch: a duplicate-aware wrapper around filepath.Walk\<close>

text \<open>
  A shallow embedding of \<^verbatim>\<open>find.go\<close>. The Go code is a thin, stateful
  callback handed to the standard library's \<^verbatim>\<open>filepath.Walk\<close>. The
  callback, the validation, the constructor and \<^verbatim>\<open>hashFile\<close> are
  translated from the source file. The platform (directory listing,
  \<^verbatim>\<open>lstat\<close>, opening and reading files, \<^verbatim>\<open>filepath.Abs\<close>, the default
  hash) is a parameter \<open>env\<close>. The traversal driver is not part of the
  repository: \<open>Walk\<close> and \<open>walk\<close> below follow the functions of the same
  names in Go's \<^verbatim>\<open>path/filepath\<close>, and \<open>TrimPrefix\<close>, \<open>Join\<close>,
  \<open>Dir\<close> and \<open>EncodeToString\<close> the library functions the source calls.
  The two user callbacks are functions of their argument. Every call that
  touches the outside world, and every call of a user callback, is recorded
  as an \<open>event\<close>, so that "is invoked", "is never presented" and "before
  any filesystem access" are statements about the recorded trace.
\<close>

subsection \<open>Errors\<close>

text \<open>
  A Go \<^verbatim>\<open>error\<close> value. \<open>SkipDir\<close> and \<open>SkipAll\<close> are the two
  sentinel values of package \<^verbatim>\<open>filepath\<close>; \<open>Errorf m\<close> is an error
  that carries only a message (\<^verbatim>\<open>fmt.Errorf\<close> without \<^verbatim>\<open>%w\<close>, or
  an operating-system error); \<open>Wrapf m e\<close> is the result of
  \<^verbatim>\<open>fmt.Errorf\<close> with \<^verbatim>\<open>%w\<close>: message \<open>m\<close>, cause \<open>e\<close>.
  \<open>Panic\<close> stands for a nil dereference, which unwinds the walk.
\<close>

datatype error = SkipDir | SkipAll | Errorf string | Wrapf string error | Panic string

fun Error_msg :: "error \<Rightarrow> string" where
  "Error_msg SkipDir = ''skip this directory''"
| "Error_msg SkipAll = ''skip everything and stop the walk''"
| "Error_msg (Errorf m) = m"
| "Error_msg (Wrapf m e) = m"
| "Error_msg (Panic m) = m"

fun Unwrap :: "error \<Rightarrow> error option" where
  "Unwrap (Wrapf m e) = Some e"
| "Unwrap e = None"

subsection \<open>File metadata and the filesystem seen by the walk\<close>

datatype ftype = Regular | Symlink | NamedPipe | Socket | Device | CharDevice | Irregular

datatype fmode = ModeDir | ModeFile ftype

record FileInfo =
  Mode :: fmode

definition IsDir :: "FileInfo \<Rightarrow> bool" where
  "IsDir info = (Mode info = ModeDir)"

definition IsRegular :: "FileInfo \<Rightarrow> bool" where
  "IsRegular info = (Mode info = ModeFile Regular)"

text \<open>
  What \<^verbatim>\<open>lstat\<close> and \<^verbatim>\<open>readDirNames\<close> deliver below a path: an entry
  whose \<^verbatim>\<open>lstat\<close> fails, a non-directory of some type, or a directory with
  the outcome of reading it and its entries in the order \<^verbatim>\<open>readDirNames\<close>
  returns them.
\<close>

datatype fsnode = LstatFails error | Entry fsentry
  and fsentry = NonDir ftype | Directory "error option" "(string \<times> fsnode) list"

fun info_of :: "fsentry \<Rightarrow> FileInfo" where
  "info_of (NonDir t) = \<lparr>Mode = ModeFile t\<rparr>"
| "info_of (Directory rderr names) = \<lparr>Mode = ModeDir\<rparr>"

text \<open>What opening a path and copying it into the hasher delivers.\<close>

datatype content = OpenFails error | ReadFails error | Contents string

record env =
  fs_Abs :: "string \<Rightarrow> error + string"
  fs_tree :: "string \<Rightarrow> fsnode"
  fs_file :: "string \<Rightarrow> content"
  fs_sha256 :: "string \<Rightarrow> string"

subsection \<open>Configuration, result record, walker state\<close>

record StatefulFileInfo =
  AlreadySeen :: bool
  FilePath :: string
  PreviousFilePath :: string
  ParentDirPath :: string
  Hash :: string
  Info :: FileInfo
  AbsSearchDirPath :: string

text \<open>
  A nil function is \<open>None\<close>. \<open>HasherFn\<close> returns a fresh hasher on each
  call; the model keeps the function from the bytes written to the digest
  that \<^verbatim>\<open>Sum(nil)\<close> returns.
\<close>

record FindUniqueFilesConfig =
  TargetDirPath :: string
  Recursive :: bool
  AllowDupes :: bool
  HasherFn :: "(string \<Rightarrow> string) option"
  IncludeFileFn :: "(string \<Rightarrow> bool) option"
  FoundFileFn :: "(StatefulFileInfo \<Rightarrow> error option) option"

record statefulFileWalker =
  absTargetDirPath :: string
  fileHashesToPrevious :: "string \<rightharpoonup> string"
  config :: FindUniqueFilesConfig

datatype event =
    EvAbs string
  | EvLstat string
  | EvReadDir string
  | EvVisit string "FileInfo option" "error option"
  | EvInclude string
  | EvHashFile string "error + string"
  | EvFound StatefulFileInfo

type_synonym outcome = "error option \<times> statefulFileWalker \<times> event list"

subsection \<open>Library functions the source calls\<close>

text \<open>\<^verbatim>\<open>strings.TrimPrefix\<close>.\<close>

definition TrimPrefix :: "string \<Rightarrow> string \<Rightarrow> string" where
  "TrimPrefix s pre =
     (if length pre \<le> length s \<and> take (length pre) s = pre
      then drop (length pre) s else s)"

text \<open>
  \<^verbatim>\<open>filepath.Join\<close> of a directory path and one entry name, as
  \<^verbatim>\<open>walk\<close> calls it (separator \<open>/\<close>): empty elements are ignored and
  no second separator is added after a directory path that ends in one.
\<close>

definition Join :: "string \<Rightarrow> string \<Rightarrow> string" where
  "Join dir name =
     (if dir = [] then name
      else if name = [] then dir
      else if last dir = CHR ''/'' then dir @ name
      else dir @ ''/'' @ name)"

text \<open>
  \<^verbatim>\<open>filepath.Dir\<close> on a cleaned path: everything before the last
  separator, without trailing separators; \<open>.\<close> when there is no separator
  and \<open>/\<close> when nothing else is left.
\<close>

definition Dir :: "string \<Rightarrow> string" where
  "Dir p =
     (let d = rev (dropWhile (\<lambda>c. c \<noteq> CHR ''/'') (rev p));
          d' = rev (dropWhile (\<lambda>c. c = CHR ''/'') (rev d))
      in if d = [] then ''.'' else if d' = [] then ''/'' else d')"

text \<open>\<^verbatim>\<open>hex.EncodeToString\<close>: two lowercase hexadecimal digits per byte.\<close>

definition hextable :: string where
  "hextable = ''0123456789abcdef''"

definition EncodeToString :: "string \<Rightarrow> string" where
  "EncodeToString src =
     concat (map (\<lambda>c. [hextable ! ((of_char c :: nat) div 16),
                        hextable ! ((of_char c :: nat) mod 16)]) src)"

subsection \<open>The source: validation, construction, hashing\<close>

definition Validate :: "FindUniqueFilesConfig \<Rightarrow> error option" where
  "Validate cfg =
     (if IncludeFileFn cfg = None then Some (Errorf ''IncludeFileFn cannot be nil'')
      else if FoundFileFn cfg = None then Some (Errorf ''FoundFileFn cannot be nil'')
      else None)"

definition pickHasher :: "env \<Rightarrow> FindUniqueFilesConfig \<Rightarrow> string \<Rightarrow> string" where
  "pickHasher env cfg =
     (case HasherFn cfg of None \<Rightarrow> fs_sha256 env | Some h \<Rightarrow> h)"

definition newFileWalker ::
  "env \<Rightarrow> FindUniqueFilesConfig \<Rightarrow> (error + statefulFileWalker) \<times> event list" where
  "newFileWalker env cfg =
     (case Validate cfg of
        Some e \<Rightarrow> (Inl e, [])
      | None \<Rightarrow>
          (case fs_Abs env (TargetDirPath cfg) of
             Inl e \<Rightarrow> (Inl e, [EvAbs (TargetDirPath cfg)])
           | Inr absPath \<Rightarrow>
               (Inr \<lparr>absTargetDirPath = absPath,
                     fileHashesToPrevious = Map.empty,
                     config = cfg\<rparr>,
                [EvAbs (TargetDirPath cfg)])))"

definition hashFile :: "env \<Rightarrow> string \<Rightarrow> (string \<Rightarrow> string) \<Rightarrow> error + string" where
  "hashFile env filePath hasher =
     (case fs_file env filePath of
        OpenFails e \<Rightarrow> Inl e
      | ReadFails e \<Rightarrow> Inl e
      | Contents bytes \<Rightarrow> Inr (EncodeToString (hasher bytes)))"

subsection \<open>The source: the walk callback\<close>

definition hash_error :: "string \<Rightarrow> error \<Rightarrow> error" where
  "hash_error filePath e =
     Wrapf (''failed to hash file '' @ [CHR 0x27] @ filePath @ [CHR 0x27] @ '' - '' @ Error_msg e) e"

text \<open>The tail of \<^verbatim>\<open>fileWalkFunc\<close>: build the record and call \<^verbatim>\<open>FoundFileFn\<close>.\<close>

definition report ::
  "statefulFileWalker \<Rightarrow> event list \<Rightarrow> StatefulFileInfo \<Rightarrow> outcome" where
  "report w evs r =
     (case FoundFileFn (config w) of
        None \<Rightarrow> (Some (Panic ''FoundFileFn is nil''), w, evs)
      | Some found \<Rightarrow> (found r, w, evs @ [EvFound r]))"

definition fileWalkFunc ::
  "env \<Rightarrow> statefulFileWalker \<Rightarrow> string \<Rightarrow> FileInfo option \<Rightarrow> error option \<Rightarrow> outcome" where
  "fileWalkFunc env w filePath info err =
     (case err of
        Some e \<Rightarrow> (Some e, w, [])
      | None \<Rightarrow>
     (case info of
        None \<Rightarrow> (Some (Panic ''info is nil''), w, [])
      | Some i \<Rightarrow>
          if \<not> Recursive (config w) \<and> IsDir i \<and> filePath \<noteq> absTargetDirPath w
          then (Some SkipDir, w, [])
          else if IsDir i \<or> \<not> IsRegular i then (None, w, [])
          else
     (case IncludeFileFn (config w) of
        None \<Rightarrow> (Some (Panic ''IncludeFileFn is nil''), w, [])
      | Some include \<Rightarrow>
          if \<not> include filePath then (None, w, [EvInclude filePath])
          else if \<not> AllowDupes (config w) then
            (case hashFile env filePath (pickHasher env (config w)) of
               Inl e \<Rightarrow>
                 (Some (hash_error filePath e), w,
                  [EvInclude filePath, EvHashFile filePath (Inl e)])
             | Inr fileHash \<Rightarrow>
                 (case fileHashesToPrevious w fileHash of
                    None \<Rightarrow>
                      report
                        (w\<lparr>fileHashesToPrevious :=
                             (fileHashesToPrevious w)
                               (fileHash \<mapsto> TrimPrefix filePath (absTargetDirPath w))\<rparr>)
                        [EvInclude filePath, EvHashFile filePath (Inr fileHash)]
                        \<lparr>AlreadySeen = False, FilePath = filePath,
                         PreviousFilePath = [], ParentDirPath = Dir filePath,
                         Hash = fileHash, Info = i,
                         AbsSearchDirPath = absTargetDirPath w\<rparr>
                  | Some previousFilePath \<Rightarrow>
                      report w
                        [EvInclude filePath, EvHashFile filePath (Inr fileHash)]
                        \<lparr>AlreadySeen = True, FilePath = filePath,
                         PreviousFilePath = previousFilePath, ParentDirPath = Dir filePath,
                         Hash = fileHash, Info = i,
                         AbsSearchDirPath = absTargetDirPath w\<rparr>))
          else
            report w [EvInclude filePath]
              \<lparr>AlreadySeen = False, FilePath = filePath,
               PreviousFilePath = [], ParentDirPath = Dir filePath,
               Hash = [], Info = i,
               AbsSearchDirPath = absTargetDirPath w\<rparr>)))"

subsection \<open>The traversal driver: filepath.Walk\<close>

text \<open>One call of the walk function by the driver.\<close>

definition walkFn ::
  "env \<Rightarrow> statefulFileWalker \<Rightarrow> string \<Rightarrow> FileInfo option \<Rightarrow> error option \<Rightarrow> outcome" where
  "walkFn env w path info err =
     (case fileWalkFunc env w path info err of
        (r, w', evs) \<Rightarrow> (r, w', EvVisit path info err # evs))"

text \<open>
  \<^verbatim>\<open>walk\<close> of the standard library: a non-directory is handed to the
  walk function; a directory is read first, then handed to the walk function
  together with the read error, and its names are walked unless either failed.
  In the loop over the names a \<open>SkipDir\<close> from a directory (or from an entry
  whose \<^verbatim>\<open>lstat\<close> failed) is swallowed; any other error, and a \<open>SkipDir\<close>
  from a non-directory, ends the loop and is returned.
\<close>

fun walk :: "env \<Rightarrow> statefulFileWalker \<Rightarrow> string \<Rightarrow> fsentry \<Rightarrow> outcome"
  and walkNames :: "env \<Rightarrow> statefulFileWalker \<Rightarrow> string \<Rightarrow> (string \<times> fsnode) list \<Rightarrow> outcome"
where
  "walk env w path (NonDir t) = walkFn env w path (Some (info_of (NonDir t))) None"
| "walk env w path (Directory rderr names) =
     (case walkFn env w path (Some (info_of (Directory rderr names))) rderr of
        (err1, w1, evs1) \<Rightarrow>
          if rderr \<noteq> None \<or> err1 \<noteq> None then (err1, w1, EvReadDir path # evs1)
          else
            (case walkNames env w1 path names of
               (err2, w2, evs2) \<Rightarrow> (err2, w2, EvReadDir path # evs1 @ evs2)))"
| "walkNames env w path [] = (None, w, [])"
| "walkNames env w path ((name, LstatFails e) # rest) =
     (case walkFn env w (Join path name) None (Some e) of
        (err, w1, evs1) \<Rightarrow>
          if err \<noteq> None \<and> err \<noteq> Some SkipDir
          then (err, w1, EvLstat (Join path name) # evs1)
          else
            (case walkNames env w1 path rest of
               (err2, w2, evs2) \<Rightarrow> (err2, w2, EvLstat (Join path name) # evs1 @ evs2)))"
| "walkNames env w path ((name, Entry ent) # rest) =
     (case walk env w (Join path name) ent of
        (err, w1, evs1) \<Rightarrow>
          if err \<noteq> None \<and> (\<not> IsDir (info_of ent) \<or> err \<noteq> Some SkipDir)
          then (err, w1, EvLstat (Join path name) # evs1)
          else
            (case walkNames env w1 path rest of
               (err2, w2, evs2) \<Rightarrow> (err2, w2, EvLstat (Join path name) # evs1 @ evs2)))"

definition Walk :: "env \<Rightarrow> statefulFileWalker \<Rightarrow> string \<Rightarrow> outcome" where
  "Walk env w root =
     (case (case fs_tree env root of
              LstatFails e \<Rightarrow> walkFn env w root None (Some e)
            | Entry ent \<Rightarrow> walk env w root ent) of
        (err, w', evs) \<Rightarrow>
          (if err = Some SkipDir \<or> err = Some SkipAll then None else err,
           w', EvLstat root # evs))"

definition search :: "env \<Rightarrow> statefulFileWalker \<Rightarrow> outcome" where
  "search env w = Walk env w (absTargetDirPath w)"

definition FindUniqueFiles :: "env \<Rightarrow> FindUniqueFilesConfig \<Rightarrow> error option \<times> event list" where
  "FindUniqueFiles env cfg =
     (case newFileWalker env cfg of
        (Inl e, evs) \<Rightarrow> (Some e, evs)
      | (Inr sfw, evs) \<Rightarrow>
          (case search env sfw of (r, w', evs') \<Rightarrow> (r, evs @ evs')))"


section \<open>Auxiliary notions used to state and prove the properties\<close>

text \<open>The result records handed to \<^verbatim>\<open>FoundFileFn\<close>, in the order of the calls.\<close>

fun reports :: "event list \<Rightarrow> StatefulFileInfo list" where
  "reports [] = []"
| "reports (EvFound r # evs) = r # reports evs"
| "reports (ev # evs) = reports evs"

text \<open>
  Replaying a list of result records against a dedup index: each record must
  agree with the index as it stands when the record is produced, and a record
  with a new digest extends the index. The result is the index at the end, or
  \<open>None\<close> when some record disagrees. It is the loop invariant of the walk
  with duplicate tracking.
\<close>

fun replay ::
  "string \<Rightarrow> (string \<rightharpoonup> string) \<Rightarrow> StatefulFileInfo list \<Rightarrow> (string \<rightharpoonup> string) option" where
  "replay root idx [] = Some idx"
| "replay root idx (r # rs) =
     (case idx (Hash r) of
        None \<Rightarrow>
          if \<not> AlreadySeen r \<and> PreviousFilePath r = []
          then replay root (idx(Hash r \<mapsto> TrimPrefix (FilePath r) root)) rs
          else None
      | Some q \<Rightarrow>
          if AlreadySeen r \<and> PreviousFilePath r = q then replay root idx rs else None)"

text \<open>
  The events after which the walk cannot go on: a failed hash, and a call of
  \<^verbatim>\<open>FoundFileFn\<close> that returned an error other than the two sentinels of
  \<^verbatim>\<open>filepath\<close>. \<open>fatal_error\<close> gives the error the walk then returns.
\<close>

definition fatal_error :: "FindUniqueFilesConfig \<Rightarrow> event \<Rightarrow> error option" where
  "fatal_error cfg ev =
     (case ev of
        EvFound r \<Rightarrow>
          (case FoundFileFn cfg of
             None \<Rightarrow> None
           | Some found \<Rightarrow>
               (case found r of
                  None \<Rightarrow> None
                | Some e \<Rightarrow> if e = SkipDir \<or> e = SkipAll then None else Some e))
      | EvHashFile p (Inl e) \<Rightarrow> Some (hash_error p e)
      | _ \<Rightarrow> None)"

text \<open>Every entry name in the tree is non-empty, as the names of a directory listing are.\<close>

fun names_ok :: "fsentry \<Rightarrow> bool"
  and names_ok_list :: "(string \<times> fsnode) list \<Rightarrow> bool"
where
  "names_ok (NonDir t) = True"
| "names_ok (Directory rderr names) = names_ok_list names"
| "names_ok_list [] = True"
| "names_ok_list ((name, LstatFails e) # rest) = (name \<noteq> [] \<and> names_ok_list rest)"
| "names_ok_list ((name, Entry ent) # rest) = (name \<noteq> [] \<and> names_ok ent \<and> names_ok_list rest)"

fun names_ok_node :: "fsnode \<Rightarrow> bool" where
  "names_ok_node (LstatFails e) = True"
| "names_ok_node (Entry ent) = names_ok ent"

text \<open>
  A result and a trace in which a fatal event can only be the last event and
  then decides the result.
\<close>

definition aborts_at_fatal :: "FindUniqueFilesConfig \<Rightarrow> error option \<Rightarrow> event list \<Rightarrow> bool" where
  "aborts_at_fatal cfg r evs =
     ((\<forall>ev \<in> set evs. \<forall>x. fatal_error cfg ev = Some x \<longrightarrow> r = Some x) \<and>
      (\<forall>ev \<in> set (butlast evs). fatal_error cfg ev = None))"

text \<open>No stored path of the index is the empty string.\<close>

definition values_nonempty :: "(string \<rightharpoonup> string) \<Rightarrow> bool" where
  "values_nonempty idx = (\<forall>h v. idx h = Some v \<longrightarrow> v \<noteq> [])"

definition seen_iff_previous :: "event list \<Rightarrow> bool" where
  "seen_iff_previous evs =
     (\<forall>r. EvFound r \<in> set evs \<longrightarrow> (AlreadySeen r \<longleftrightarrow> PreviousFilePath r \<noteq> []))"

text \<open>The paths of the entries listed directly in the root directory.\<close>

fun child_paths :: "string \<Rightarrow> fsnode \<Rightarrow> string list" where
  "child_paths root (Entry (Directory rderr names)) =
     map (\<lambda>(name, node). Join root name) names"
| "child_paths root node = []"

text \<open>
  The same filesystem with every subdirectory of the root emptied: \<open>cut\<close>
  empties one directory, \<open>without_subtrees\<close> applies it to the entries of
  the root.
\<close>

fun cut :: "fsnode \<Rightarrow> fsnode" where
  "cut (Entry (Directory rderr names)) = Entry (Directory rderr [])"
| "cut node = node"

fun without_subtrees :: "fsnode \<Rightarrow> fsnode" where
  "without_subtrees (Entry (Directory rderr names)) =
     Entry (Directory rderr (map (\<lambda>(name, node). (name, cut node)) names))"
| "without_subtrees node = node"

text \<open>
  The paths, in the order of the walk, of the visited entries that are
  accepted files: the walk function was called for them with no error and the
  metadata of a regular file, and the include predicate \<open>accept\<close> holds
  for the path.
\<close>

fun accepted_visits :: "(string \<Rightarrow> bool) \<Rightarrow> event list \<Rightarrow> string list" where
  "accepted_visits accept [] = []"
| "accepted_visits accept (EvVisit p (Some i) None # evs) =
     (if IsRegular i \<and> accept p then [p] else []) @ accepted_visits accept evs"
| "accepted_visits accept (ev # evs) = accepted_visits accept evs"

section \<open>Concrete filesystems and configurations\<close>

text \<open>A hasher for the examples: the digest is the first byte of the input.\<close>

definition toy_hasher :: "string \<Rightarrow> string" where
  "toy_hasher bytes = take 1 bytes"

text \<open>
  Root \<open>/r\<close> holds \<open>a.txt\<close> and \<open>b.txt\<close> with the same content, a symbolic
  link \<open>l\<close> and a subdirectory \<open>sub\<close> with one file.
\<close>

definition env_A :: env where
  "env_A =
     \<lparr>fs_Abs = Inr,
      fs_tree = (\<lambda>p. if p = ''/r'' then Entry (Directory None
                   [(''a.txt'', Entry (NonDir Regular)),
                    (''b.txt'', Entry (NonDir Regular)),
                    (''l'', Entry (NonDir Symlink)),
                    (''sub'', Entry (Directory None [(''c.txt'', Entry (NonDir Regular))]))])
                 else LstatFails (Errorf ''no such file or directory'')),
      fs_file = (\<lambda>p. if p = ''/r/a.txt'' \<or> p = ''/r/b.txt'' then Contents ''hello''
                      else if p = ''/r/sub/c.txt'' then Contents ''bye''
                      else OpenFails (Errorf ''no such file or directory'')),
      fs_sha256 = toy_hasher\<rparr>"

definition cfg_A :: FindUniqueFilesConfig where
  "cfg_A =
     \<lparr>TargetDirPath = ''/r'', Recursive = False, AllowDupes = False,
      HasherFn = None, IncludeFileFn = Some (\<lambda>p. True),
      FoundFileFn = Some (\<lambda>r. None)\<rparr>"

text \<open>
  Root \<open>/r\<close> holds a subdirectory \<open>a\<close> with one file, and a file
  \<open>b.txt\<close> that is listed after it.
\<close>

definition env_B :: env where
  "env_B =
     \<lparr>fs_Abs = Inr,
      fs_tree = (\<lambda>p. if p = ''/r'' then Entry (Directory None
                   [(''a'', Entry (Directory None [(''x.txt'', Entry (NonDir Regular))])),
                    (''b.txt'', Entry (NonDir Regular))])
                 else LstatFails (Errorf ''no such file or directory'')),
      fs_file = (\<lambda>p. if p = ''/r/a/x.txt'' then Contents ''x''
                      else if p = ''/r/b.txt'' then Contents ''b''
                      else OpenFails (Errorf ''no such file or directory'')),
      fs_sha256 = toy_hasher\<rparr>"

text \<open>A recursive walk whose found callback returns \<^verbatim>\<open>filepath.SkipDir\<close>.\<close>

definition cfg_B :: FindUniqueFilesConfig where
  "cfg_B =
     \<lparr>TargetDirPath = ''/r'', Recursive = True, AllowDupes = False,
      HasherFn = None, IncludeFileFn = Some (\<lambda>p. True),
      FoundFileFn = Some (\<lambda>r. Some SkipDir)\<rparr>"

text \<open>The first example, where only \<open>a.txt\<close> can be read.\<close>

definition env_C :: env where
  "env_C =
     env_A\<lparr>fs_file := (\<lambda>p. if p = ''/r/a.txt'' then Contents ''hello''
                            else ReadFails (Errorf ''input/output error''))\<rparr>"

text \<open>
  Root \<open>/r\<close> holds a subdirectory \<open>sub\<close> that cannot be read, and a
  file \<open>z.txt\<close> that is listed after it.
\<close>

definition env_D :: env where
  "env_D =
     \<lparr>fs_Abs = Inr,
      fs_tree = (\<lambda>p. if p = ''/r'' then Entry (Directory None
                   [(''sub'', Entry (Directory (Some (Errorf ''permission denied'')) [])),
                    (''z.txt'', Entry (NonDir Regular))])
                 else LstatFails (Errorf ''no such file or directory'')),
      fs_file = (\<lambda>p. Contents ''z''),
      fs_sha256 = toy_hasher\<rparr>"

text \<open>
  The walker that \<^verbatim>\<open>newFileWalker\<close> builds for the first example, and the
  two records its walk hands to the found callback.
\<close>

definition walker_A :: statefulFileWalker where
  "walker_A = \<lparr>absTargetDirPath = ''/r'', fileHashesToPrevious = Map.empty, config = cfg_A\<rparr>"

definition report_a :: StatefulFileInfo where
  "report_a =
     \<lparr>AlreadySeen = False, FilePath = ''/r/a.txt'', PreviousFilePath = [],
      ParentDirPath = ''/r'', Hash = ''68'', Info = \<lparr>Mode = ModeFile Regular\<rparr>,
      AbsSearchDirPath = ''/r''\<rparr>"

definition report_b :: StatefulFileInfo where
  "report_b =
     \<lparr>AlreadySeen = True, FilePath = ''/r/b.txt'', PreviousFilePath = ''/a.txt'',
      ParentDirPath = ''/r'', Hash = ''68'', Info = \<lparr>Mode = ModeFile Regular\<rparr>,
      AbsSearchDirPath = ''/r''\<rparr>"

text \<open>The record for \<open>/r/a/x.txt\<close> in the second example.\<close>

definition report_x :: StatefulFileInfo where
  "report_x =
     \<lparr>AlreadySeen = False, FilePath = ''/r/a/x.txt'', PreviousFilePath = [],
      ParentDirPath = ''/r/a'', Hash = ''78'', Info = \<lparr>Mode = ModeFile Regular\<rparr>,
      AbsSearchDirPath = ''/r''\<rparr>"

section \<open>Basic facts about the traversal\<close>

lemmas eval_defs =
  FindUniqueFiles_def newFileWalker_def Validate_def search_def Walk_def walkFn_def
  fileWalkFunc_def IsDir_def IsRegular_def Join_def report_def hashFile_def
  pickHasher_def TrimPrefix_def EncodeToString_def hextable_def Dir_def hash_error_def
  walk.simps(2) walkNames.simps(2,3) toy_hasher_def

lemma walk_DirectoryE:
  assumes "walk env w path (Directory rderr names) = (r, w', evs)"
  obtains (stop) evs1 where
      "walkFn env w path (Some \<lparr>Mode = ModeDir\<rparr>) rderr = (r, w', evs1)"
      "rderr \<noteq> None \<or> r \<noteq> None" "evs = EvReadDir path # evs1"
  | (descend) w1 evs1 evs2 where
      "walkFn env w path (Some \<lparr>Mode = ModeDir\<rparr>) None = (None, w1, evs1)"
      "rderr = None" "walkNames env w1 path names = (r, w', evs2)"
      "evs = EvReadDir path # evs1 @ evs2"
  using assms by (auto split: prod.splits if_splits)

lemma walkNames_LstatFailsE:
  assumes "walkNames env w path ((name, LstatFails e) # rest) = (r, w', evs)"
  obtains (stop) evs1 where
      "walkFn env w (Join path name) None (Some e) = (r, w', evs1)"
      "r \<noteq> None" "r \<noteq> Some SkipDir" "evs = EvLstat (Join path name) # evs1"
  | (continue) err w1 evs1 evs2 where
      "walkFn env w (Join path name) None (Some e) = (err, w1, evs1)"
      "err = None \<or> err = Some SkipDir" "walkNames env w1 path rest = (r, w', evs2)"
      "evs = EvLstat (Join path name) # evs1 @ evs2"
  using assms by (auto split: prod.splits if_splits)

lemma walkNames_EntryE:
  assumes "walkNames env w path ((name, Entry ent) # rest) = (r, w', evs)"
  obtains (stop) evs1 where
      "walk env w (Join path name) ent = (r, w', evs1)"
      "r \<noteq> None" "\<not> IsDir (info_of ent) \<or> r \<noteq> Some SkipDir"
      "evs = EvLstat (Join path name) # evs1"
  | (continue) err w1 evs1 evs2 where
      "walk env w (Join path name) ent = (err, w1, evs1)"
      "err = None \<or> (IsDir (info_of ent) \<and> err = Some SkipDir)"
      "walkNames env w1 path rest = (r, w', evs2)"
      "evs = EvLstat (Join path name) # evs1 @ evs2"
  using assms by (auto split: prod.splits if_splits)

lemma walk_induct [case_names NonDir Directory Nil LstatFails Entry]:
  assumes "\<And>w path t. P w path (NonDir t)"
    and "\<And>w path rderr names.
           (\<And>w1 evs1. walkFn env w path (Some \<lparr>Mode = ModeDir\<rparr>) None = (None, w1, evs1)
              \<Longrightarrow> rderr = None \<Longrightarrow> Q w1 path names)
           \<Longrightarrow> P w path (Directory rderr names)"
    and "\<And>w path. Q w path []"
    and "\<And>w path name e rest.
           (\<And>err w1 evs1. walkFn env w (Join path name) None (Some e) = (err, w1, evs1)
              \<Longrightarrow> err = None \<or> err = Some SkipDir \<Longrightarrow> Q w1 path rest)
           \<Longrightarrow> Q w path ((name, LstatFails e) # rest)"
    and "\<And>w path name ent rest.
           P w (Join path name) ent \<Longrightarrow>
           (\<And>err w1 evs1. walk env w (Join path name) ent = (err, w1, evs1)
              \<Longrightarrow> err = None \<or> (IsDir (info_of ent) \<and> err = Some SkipDir)
              \<Longrightarrow> Q w1 path rest)
           \<Longrightarrow> Q w path ((name, Entry ent) # rest)"
  shows "P w path ent" and "Q w path names"
proof -
  have "env' = env \<longrightarrow> P w path ent" and "env' = env \<longrightarrow> Q w path names" for env'
  proof (induction env' w path ent and env' w path names rule: walk_walkNames.induct)
    case (1 env' w path t)
    show ?case by (simp add: assms(1))
  next
    case (2 env' w path rderr names)
    show ?case
    proof
      assume eq: "env' = env"
      show "P w path (Directory rderr names)"
      proof (rule assms(2))
        fix w1 evs1
        assume a: "walkFn env w path (Some \<lparr>Mode = ModeDir\<rparr>) None = (None, w1, evs1)"
          and b: "rderr = None"
        have "env' = env \<longrightarrow> Q w1 path names"
          by (rule 2[of None "(w1, evs1)" w1 evs1]) (simp_all add: a b eq)
        with eq show "Q w1 path names" by simp
      qed
    qed
  next
    case (3 env' w path)
    show ?case by (simp add: assms(3))
  next
    case (4 env' w path name e rest)
    show ?case
    proof
      assume eq: "env' = env"
      show "Q w path ((name, LstatFails e) # rest)"
      proof (rule assms(4))
        fix err w1 evs1
        assume a: "walkFn env w (Join path name) None (Some e) = (err, w1, evs1)"
          and b: "err = None \<or> err = Some SkipDir"
        have "env' = env \<longrightarrow> Q w1 path rest"
          by (rule 4[of err "(w1, evs1)" w1 evs1]) (use a b eq in auto)
        with eq show "Q w1 path rest" by simp
      qed
    qed
  next
    case (5 env' w path name ent rest)
    show ?case
    proof
      assume eq: "env' = env"
      show "Q w path ((name, Entry ent) # rest)"
      proof (rule assms(5))
        show "P w (Join path name) ent" using 5(1) eq by simp
      next
        fix err w1 evs1
        assume a: "walk env w (Join path name) ent = (err, w1, evs1)"
          and b: "err = None \<or> (IsDir (info_of ent) \<and> err = Some SkipDir)"
        have "env' = env \<longrightarrow> Q w1 path rest"
          by (rule 5(2)[of err "(w1, evs1)" w1 evs1]) (use a b eq in auto)
        with eq show "Q w1 path rest" by simp
      qed
    qed
  qed
  then show "P w path ent" and "Q w path names" by simp_all
qed

declare walk.simps(2) [simp del] walkNames.simps(2,3) [simp del]

lemma walk_trace_rel:
  assumes refl: "\<And>w. R w [] w"
    and trans: "\<And>w a w1 b w2. R w a w1 \<Longrightarrow> R w1 b w2 \<Longrightarrow> R w (a @ b) w2"
    and fsev: "\<And>w p. R w [EvLstat p] w" "\<And>w p. R w [EvReadDir p] w"
    and call: "\<And>w p i e r w' evs. walkFn env w p i e = (r, w', evs) \<Longrightarrow> R w evs w'"
  shows "walk env w path ent = (r, w', evs) \<Longrightarrow> R w evs w'"
    and "walkNames env w path names = (r, w', evs) \<Longrightarrow> R w evs w'"
proof (induction w path ent and w path names arbitrary: r w' evs and r w' evs
       rule: walk_induct[where env = env])
  case (NonDir w path t)
  then show ?case by (auto intro: call)
next
  case (Directory w path rderr names)
  from Directory.prems show ?case
  proof (cases rule: walk_DirectoryE)
    case (stop evs1)
    have "R w ([EvReadDir path] @ evs1) w'"
      by (rule trans[OF fsev(2) call[OF stop(1)]])
    with stop show ?thesis by simp
  next
    case (descend w1 evs1 evs2)
    have "R w ([EvReadDir path] @ evs1 @ evs2) w'"
      by (rule trans[OF fsev(2) trans[OF call[OF descend(1)] Directory.IH[OF descend(1,2,3)]]])
    with descend show ?thesis by simp
  qed
next
  case (Nil w path)
  then show ?case by (simp add: refl)
next
  case (LstatFails w path name e rest)
  from LstatFails.prems show ?case
  proof (cases rule: walkNames_LstatFailsE)
    case (stop evs1)
    have "R w ([EvLstat (Join path name)] @ evs1) w'"
      by (rule trans[OF fsev(1) call[OF stop(1)]])
    with stop show ?thesis by simp
  next
    case (continue err w1 evs1 evs2)
    have "R w ([EvLstat (Join path name)] @ evs1 @ evs2) w'"
      by (rule trans[OF fsev(1) trans[OF call[OF continue(1)] LstatFails.IH[OF continue(1,2,3)]]])
    with continue show ?thesis by simp
  qed
next
  case (Entry w path name ent rest)
  from Entry.prems show ?case
  proof (cases rule: walkNames_EntryE)
    case (stop evs1)
    have "R w ([EvLstat (Join path name)] @ evs1) w'"
      by (rule trans[OF fsev(1) Entry.IH(1)[OF stop(1)]])
    with stop show ?thesis by simp
  next
    case (continue err w1 evs1 evs2)
    have "R w ([EvLstat (Join path name)] @ evs1 @ evs2) w'"
      by (rule trans[OF fsev(1) trans[OF Entry.IH(1)[OF continue(1)] Entry.IH(2)[OF continue(1,2,3)]]])
    with continue show ?thesis by simp
  qed
qed

lemma search_trace_rel:
  assumes refl: "\<And>w. R w [] w"
    and trans: "\<And>w a w1 b w2. R w a w1 \<Longrightarrow> R w1 b w2 \<Longrightarrow> R w (a @ b) w2"
    and fsev: "\<And>w p. R w [EvLstat p] w" "\<And>w p. R w [EvReadDir p] w"
    and call: "\<And>w p i e r w' evs. walkFn env w p i e = (r, w', evs) \<Longrightarrow> R w evs w'"
    and run: "search env w = (r, w', evs)"
  shows "R w evs w'"
proof -
  let ?root = "absTargetDirPath w"
  obtain err evs1 where
    inner: "(case fs_tree env ?root of
               LstatFails e \<Rightarrow> walkFn env w ?root None (Some e)
             | Entry ent \<Rightarrow> walk env w ?root ent) = (err, w', evs1)"
    and evs: "evs = [EvLstat ?root] @ evs1"
    using run by (auto simp: search_def Walk_def split: prod.splits)
  have "R w evs1 w'"
  proof (cases "fs_tree env ?root")
    case (LstatFails e)
    with inner show ?thesis by (auto intro: call)
  next
    case (Entry ent)
    with inner have "walk env w ?root ent = (err, w', evs1)" by simp
    then show ?thesis
      using refl trans fsev call by (rule walk_trace_rel(1)[where R = R and env = env, rotated -1])
  qed
  then show ?thesis unfolding evs by (rule trans[OF fsev(1)])
qed

lemma FindUniqueFiles_cases:
  obtains (invalid) e where "Validate cfg = Some e" "FindUniqueFiles env cfg = (Some e, [])"
  | (unresolved) e where "Validate cfg = None" "fs_Abs env (TargetDirPath cfg) = Inl e"
      "FindUniqueFiles env cfg = (Some e, [EvAbs (TargetDirPath cfg)])"
  | (walked) root r w' evs where "Validate cfg = None"
      "fs_Abs env (TargetDirPath cfg) = Inr root"
      "newFileWalker env cfg =
         (Inr \<lparr>absTargetDirPath = root, fileHashesToPrevious = Map.empty, config = cfg\<rparr>,
          [EvAbs (TargetDirPath cfg)])"
      "search env \<lparr>absTargetDirPath = root, fileHashesToPrevious = Map.empty, config = cfg\<rparr>
         = (r, w', evs)"
      "FindUniqueFiles env cfg = (r, EvAbs (TargetDirPath cfg) # evs)"
proof (cases "Validate cfg")
  case (Some e)
  then show ?thesis by (intro invalid[of e]) (simp_all add: FindUniqueFiles_def newFileWalker_def)
next
  case None
  show ?thesis
  proof (cases "fs_Abs env (TargetDirPath cfg)")
    case (Inl e)
    with None show ?thesis
      by (intro unresolved[of e]) (simp_all add: FindUniqueFiles_def newFileWalker_def)
  next
    case (Inr root)
    obtain r w' evs where
      "search env \<lparr>absTargetDirPath = root, fileHashesToPrevious = Map.empty, config = cfg\<rparr>
         = (r, w', evs)"
      by (cases "search env \<lparr>absTargetDirPath = root, fileHashesToPrevious = Map.empty, config = cfg\<rparr>") auto
    with None Inr show ?thesis
      by (intro walked[of root r w' evs]) (simp_all add: FindUniqueFiles_def newFileWalker_def)
  qed
qed

lemma walkFn_frame:
  "walkFn env w p i e = (r, w', evs) \<Longrightarrow>
     config w' = config w \<and> absTargetDirPath w' = absTargetDirPath w"
  by (auto simp: walkFn_def fileWalkFunc_def report_def
           split: option.splits if_splits sum.splits)

lemma walk_frame:
  "walk env w path ent = (r, w', evs) \<Longrightarrow>
     config w' = config w \<and> absTargetDirPath w' = absTargetDirPath w"
  "walkNames env w path names = (r, w', evs) \<Longrightarrow>
     config w' = config w \<and> absTargetDirPath w' = absTargetDirPath w"
  by (rule walk_trace_rel[where R = "\<lambda>w evs w'. config w' = config w \<and>
        absTargetDirPath w' = absTargetDirPath w" and env = env];
      auto dest: walkFn_frame)+

lemma walkFn_visit_path:
  "walkFn env w p i e = (r, w', evs) \<Longrightarrow> EvVisit q j f \<in> set evs \<Longrightarrow> q = p"
  by (auto simp: walkFn_def fileWalkFunc_def report_def
           split: option.splits if_splits sum.splits)

lemma Join_longer: "name \<noteq> [] \<Longrightarrow> length path < length (Join path name)"
  by (auto simp: Join_def)

lemma reports_append: "reports (a @ b) = reports a @ reports b"
  by (induction a rule: reports.induct) simp_all

lemma set_reports: "set (reports evs) = {r. EvFound r \<in> set evs}"
  by (induction evs rule: reports.induct) auto

lemma accepted_visits_append:
  "accepted_visits accept (a @ b) = accepted_visits accept a @ accepted_visits accept b"
  by (induction accept a rule: accepted_visits.induct) simp_all

text \<open>The walks of the examples, computed.\<close>

lemma scenario_A:
  "FindUniqueFiles env_A cfg_A =
     (None,
      [EvAbs ''/r'', EvLstat ''/r'', EvReadDir ''/r'',
       EvVisit ''/r'' (Some \<lparr>Mode = ModeDir\<rparr>) None,
       EvLstat ''/r/a.txt'', EvVisit ''/r/a.txt'' (Some \<lparr>Mode = ModeFile Regular\<rparr>) None,
       EvInclude ''/r/a.txt'', EvHashFile ''/r/a.txt'' (Inr ''68''), EvFound report_a,
       EvLstat ''/r/b.txt'', EvVisit ''/r/b.txt'' (Some \<lparr>Mode = ModeFile Regular\<rparr>) None,
       EvInclude ''/r/b.txt'', EvHashFile ''/r/b.txt'' (Inr ''68''), EvFound report_b,
       EvLstat ''/r/l'', EvVisit ''/r/l'' (Some \<lparr>Mode = ModeFile Symlink\<rparr>) None,
       EvLstat ''/r/sub'', EvReadDir ''/r/sub'',
       EvVisit ''/r/sub'' (Some \<lparr>Mode = ModeDir\<rparr>) None])"
  by (simp add: eval_defs env_A_def cfg_A_def report_a_def report_b_def)

lemma scenario_A_search:
  "search env_A walker_A =
     (None,
      walker_A\<lparr>fileHashesToPrevious := [''68'' \<mapsto> ''/a.txt'']\<rparr>,
      [EvLstat ''/r'', EvReadDir ''/r'',
       EvVisit ''/r'' (Some \<lparr>Mode = ModeDir\<rparr>) None,
       EvLstat ''/r/a.txt'', EvVisit ''/r/a.txt'' (Some \<lparr>Mode = ModeFile Regular\<rparr>) None,
       EvInclude ''/r/a.txt'', EvHashFile ''/r/a.txt'' (Inr ''68''), EvFound report_a,
       EvLstat ''/r/b.txt'', EvVisit ''/r/b.txt'' (Some \<lparr>Mode = ModeFile Regular\<rparr>) None,
       EvInclude ''/r/b.txt'', EvHashFile ''/r/b.txt'' (Inr ''68''), EvFound report_b,
       EvLstat ''/r/l'', EvVisit ''/r/l'' (Some \<lparr>Mode = ModeFile Symlink\<rparr>) None,
       EvLstat ''/r/sub'', EvReadDir ''/r/sub'',
       EvVisit ''/r/sub'' (Some \<lparr>Mode = ModeDir\<rparr>) None])"
  by (simp add: eval_defs env_A_def cfg_A_def walker_A_def report_a_def report_b_def)

lemma scenario_A_walker: "newFileWalker env_A cfg_A = (Inr walker_A, [EvAbs ''/r''])"
  by (simp add: newFileWalker_def Validate_def env_A_def cfg_A_def walker_A_def)

lemma scenario_A_names: "\<forall>p. names_ok_node (fs_tree env_A p)"
  by (simp add: env_A_def)

section \<open>Fatal events end the walk\<close>

lemma fatal_error_not_sentinel:
  "fatal_error cfg ev = Some x \<Longrightarrow> x \<noteq> SkipDir \<and> x \<noteq> SkipAll"
  by (auto simp: fatal_error_def hash_error_def split: event.splits option.splits sum.splits if_splits)

lemma aborts_at_fatal_Nil: "aborts_at_fatal cfg r []"
  by (simp add: aborts_at_fatal_def)

lemma aborts_at_fatal_Cons:
  "fatal_error cfg ev = None \<Longrightarrow> aborts_at_fatal cfg r evs \<Longrightarrow> aborts_at_fatal cfg r (ev # evs)"
  by (auto simp: aborts_at_fatal_def split: if_splits)

lemma aborts_at_fatal_append:
  assumes "aborts_at_fatal cfg r1 a" and "r1 = None \<or> r1 = Some SkipDir"
    and "aborts_at_fatal cfg r2 b"
  shows "aborts_at_fatal cfg r2 (a @ b)"
proof -
  have none: "fatal_error cfg ev = None" if "ev \<in> set a" for ev
  proof (cases "fatal_error cfg ev")
    case (Some x)
    with assms(1) that have "r1 = Some x" by (simp add: aborts_at_fatal_def)
    with assms(2) fatal_error_not_sentinel[OF Some] show ?thesis by auto
  qed simp
  have "set (butlast (a @ b)) \<subseteq> set a \<union> set (butlast b)"
    by (auto simp: butlast_append dest: in_set_butlastD)
  with none assms(3) show ?thesis
    by (fastforce simp: aborts_at_fatal_def)
qed

lemma aborts_at_fatal_sentinel:
  "aborts_at_fatal cfg r evs \<Longrightarrow>
     aborts_at_fatal cfg (if r = Some SkipDir \<or> r = Some SkipAll then None else r) evs"
  by (auto simp: aborts_at_fatal_def dest: fatal_error_not_sentinel)

lemma walkFn_aborts:
  "walkFn env w p i e = (r, w', evs) \<Longrightarrow> aborts_at_fatal (config w) r evs"
  by (auto simp: walkFn_def fileWalkFunc_def report_def aborts_at_fatal_def fatal_error_def
           split: option.splits if_splits sum.splits)

lemma walk_aborts:
  "walk env w path ent = (r, w', evs) \<Longrightarrow> aborts_at_fatal (config w) r evs"
  "walkNames env w path names = (r, w', evs) \<Longrightarrow> aborts_at_fatal (config w) r evs"
proof (induction w path ent and w path names arbitrary: r w' evs and r w' evs
       rule: walk_induct[where env = env])
  case (NonDir w path t)
  then show ?case by (auto dest: walkFn_aborts)
next
  case (Directory w path rderr names)
  have plain: "fatal_error (config w) (EvReadDir path) = None"
    by (simp add: fatal_error_def)
  from Directory.prems show ?case
  proof (cases rule: walk_DirectoryE)
    case (stop evs1)
    with walkFn_aborts[OF stop(1)] plain show ?thesis
      by (simp add: aborts_at_fatal_Cons)
  next
    case (descend w1 evs1 evs2)
    from walkFn_frame[OF descend(1)] Directory.IH[OF descend(1,2,3)]
    have "aborts_at_fatal (config w) r evs2" by simp
    with walkFn_aborts[OF descend(1)]
    have "aborts_at_fatal (config w) r (evs1 @ evs2)"
      by (auto intro: aborts_at_fatal_append)
    with descend plain show ?thesis by (simp add: aborts_at_fatal_Cons)
  qed
next
  case (Nil w path)
  then show ?case by (simp add: aborts_at_fatal_Nil)
next
  case (LstatFails w path name e rest)
  have plain: "fatal_error (config w) (EvLstat (Join path name)) = None"
    by (simp add: fatal_error_def)
  from LstatFails.prems show ?case
  proof (cases rule: walkNames_LstatFailsE)
    case (stop evs1)
    with walkFn_aborts[OF stop(1)] plain show ?thesis
      by (simp add: aborts_at_fatal_Cons)
  next
    case (continue err w1 evs1 evs2)
    from walkFn_frame[OF continue(1)] LstatFails.IH[OF continue(1,2,3)]
    have "aborts_at_fatal (config w) r evs2" by simp
    with walkFn_aborts[OF continue(1)] continue(2)
    have "aborts_at_fatal (config w) r (evs1 @ evs2)"
      by (auto intro: aborts_at_fatal_append)
    with continue plain show ?thesis by (simp add: aborts_at_fatal_Cons)
  qed
next
  case (Entry w path name ent rest)
  have plain: "fatal_error (config w) (EvLstat (Join path name)) = None"
    by (simp add: fatal_error_def)
  from Entry.prems show ?case
  proof (cases rule: walkNames_EntryE)
    case (stop evs1)
    with Entry.IH(1)[OF stop(1)] plain show ?thesis
      by (simp add: aborts_at_fatal_Cons)
  next
    case (continue err w1 evs1 evs2)
    from walk_trace_rel(1)[where R = "\<lambda>w evs w'. config w' = config w", OF _ _ _ _ _ continue(1)]
    have "config w1 = config w" by (auto dest: walkFn_frame)
    with Entry.IH(2)[OF continue(1,2,3)]
    have "aborts_at_fatal (config w) r evs2" by simp
    with Entry.IH(1)[OF continue(1)] continue(2)
    have "aborts_at_fatal (config w) r (evs1 @ evs2)"
      by (auto intro: aborts_at_fatal_append)
    with continue plain show ?thesis by (simp add: aborts_at_fatal_Cons)
  qed
qed

lemma search_aborts:
  assumes "search env w = (r, w', evs)"
  shows "aborts_at_fatal (config w) r evs"
proof -
  let ?root = "absTargetDirPath w"
  obtain err evs1 where
    inner: "(case fs_tree env ?root of
               LstatFails e \<Rightarrow> walkFn env w ?root None (Some e)
             | Entry ent \<Rightarrow> walk env w ?root ent) = (err, w', evs1)"
    and r: "r = (if err = Some SkipDir \<or> err = Some SkipAll then None else err)"
    and evs: "evs = EvLstat ?root # evs1"
    using assms by (auto simp: search_def Walk_def split: prod.splits)
  have "aborts_at_fatal (config w) err evs1"
    using inner by (cases "fs_tree env ?root") (auto dest: walkFn_aborts walk_aborts(1))
  then have "aborts_at_fatal (config w) r evs1"
    unfolding r by (rule aborts_at_fatal_sentinel)
  then show ?thesis unfolding evs
    by (intro aborts_at_fatal_Cons) (simp_all add: fatal_error_def)
qed

lemma FindUniqueFiles_aborts:
  assumes "FindUniqueFiles env cfg = (res, trace)"
  shows "aborts_at_fatal cfg res trace"
proof (cases rule: FindUniqueFiles_cases[of cfg env])
  case (invalid e)
  with assms show ?thesis by (simp add: aborts_at_fatal_Nil)
next
  case (unresolved e)
  with assms show ?thesis by (auto simp: aborts_at_fatal_def fatal_error_def)
next
  case (walked root r w' evs)
  from search_aborts[OF walked(4)] have "aborts_at_fatal cfg r evs" by simp
  then have "aborts_at_fatal cfg r (EvAbs (TargetDirPath cfg) # evs)"
    by (intro aborts_at_fatal_Cons) (simp_all add: fatal_error_def)
  with walked(5) assms show ?thesis by simp
qed

lemma aborts_at_fatal_last:
  assumes "aborts_at_fatal cfg res (pre @ ev # post)" and "fatal_error cfg ev = Some x"
  shows "post = [] \<and> res = Some x"
proof -
  have "res = Some x" using assms by (simp add: aborts_at_fatal_def)
  moreover have "post = []"
  proof (rule ccontr)
    assume "post \<noteq> []"
    then have "ev \<in> set (butlast (pre @ ev # post))"
      by (simp add: butlast_append)
    with assms show False by (simp add: aborts_at_fatal_def)
  qed
  ultimately show ?thesis by simp
qed

section \<open>First occurrence and duplicates\<close>

lemma walkFn_found_digest:
  "walkFn env w p i e = (r, w', evs) \<Longrightarrow> \<not> AllowDupes (config w) \<Longrightarrow>
   EvFound x \<in> set evs \<Longrightarrow>
     hashFile env (FilePath x) (pickHasher env (config w)) = Inr (Hash x)"
  by (auto simp: walkFn_def fileWalkFunc_def report_def
           split: option.splits if_splits sum.splits)

lemma search_found_digest:
  assumes "search env w = (r, w', evs)" and "\<not> AllowDupes (config w)"
    and "EvFound x \<in> set evs"
  shows "hashFile env (FilePath x) (pickHasher env (config w)) = Inr (Hash x)"
proof -
  let ?R = "\<lambda>w evs w'. config w' = config w \<and>
     (\<not> AllowDupes (config w) \<and> EvFound x \<in> set evs \<longrightarrow>
        hashFile env (FilePath x) (pickHasher env (config w)) = Inr (Hash x))"
  have "?R w evs w'"
  proof (rule search_trace_rel[where R = ?R, OF _ _ _ _ _ assms(1)])
    fix w p i e r w' evs
    assume "walkFn env w p i e = (r, w', evs)"
    then show "?R w evs w'"
      using walkFn_found_digest walkFn_frame by blast
  qed auto
  with assms(2,3) show ?thesis by simp
qed

lemma replay_append:
  "replay root idx (a @ b) =
     (case replay root idx a of None \<Rightarrow> None | Some i \<Rightarrow> replay root i b)"
  by (induction a arbitrary: idx) (auto split: option.splits)

lemma replay_appendD:
  "replay root idx (a @ b) = Some idx' \<Longrightarrow>
     \<exists>i. replay root idx a = Some i \<and> replay root i b = Some idx'"
  by (simp add: replay_append split: option.splits)

lemma replay_mono:
  "replay root idx rs = Some idx' \<Longrightarrow> idx h = Some q \<Longrightarrow> idx' h = Some q"
proof (induction rs arbitrary: idx)
  case Nil
  then show ?case by simp
next
  case (Cons r rs)
  show ?case
  proof (cases "idx (Hash r)")
    case None
    with Cons.prems have
      b: "replay root (idx(Hash r \<mapsto> TrimPrefix (FilePath r) root)) rs = Some idx'"
      by (auto split: if_splits)
    from None Cons.prems(2) have "h \<noteq> Hash r" by auto
    with Cons.prems(2) have "(idx(Hash r \<mapsto> TrimPrefix (FilePath r) root)) h = Some q"
      by simp
    with Cons.IH[OF b] show ?thesis .
  next
    case (Some p)
    with Cons.prems have "replay root idx rs = Some idx'"
      by (auto split: if_splits)
    with Cons.IH Cons.prems(2) show ?thesis by blast
  qed
qed

lemma replay_dom:
  "replay root idx rs = Some idx' \<Longrightarrow> dom idx' = dom idx \<union> Hash ` set rs"
proof (induction rs arbitrary: idx)
  case Nil
  then show ?case by simp
next
  case (Cons r rs)
  then show ?case
    by (cases "idx (Hash r)") (auto split: if_splits)
qed

lemma replay_first:
  assumes "replay root idx (pre @ r # post) = Some idx'"
    and "idx (Hash r) = None" and "Hash r \<notin> Hash ` set pre"
  shows "\<not> AlreadySeen r \<and> PreviousFilePath r = [] \<and>
         idx' (Hash r) = Some (TrimPrefix (FilePath r) root)"
proof -
  from replay_appendD[OF assms(1)] obtain i where
    i: "replay root idx pre = Some i" and rest: "replay root i (r # post) = Some idx'"
    by blast
  from replay_dom[OF i] assms(2,3) have none: "i (Hash r) = None" by auto
  with rest have a: "\<not> AlreadySeen r \<and> PreviousFilePath r = []"
    and b: "replay root (i(Hash r \<mapsto> TrimPrefix (FilePath r) root)) post = Some idx'"
    by (auto split: if_splits)
  from replay_mono[OF b, of "Hash r"] a show ?thesis by simp
qed

lemma replay_later:
  assumes "replay root idx (pre1 @ f # pre2 @ r # post) = Some idx'"
    and "Hash f = Hash r" and "idx (Hash f) = None" and "Hash f \<notin> Hash ` set pre1"
  shows "AlreadySeen r \<and> PreviousFilePath r = TrimPrefix (FilePath f) root \<and> \<not> AlreadySeen f"
proof -
  from replay_first[OF assms(1,3,4)] have f: "\<not> AlreadySeen f" by simp
  from replay_appendD[OF assms(1)] obtain i where
    i: "replay root idx pre1 = Some i"
    and rest: "replay root i (f # pre2 @ r # post) = Some idx'"
    by blast
  from replay_dom[OF i] assms(3,4) have none: "i (Hash f) = None" by auto
  with rest have
    b: "replay root (i(Hash f \<mapsto> TrimPrefix (FilePath f) root)) (pre2 @ r # post) = Some idx'"
    by (auto split: if_splits)
  from replay_appendD[OF b] obtain j where
    j: "replay root (i(Hash f \<mapsto> TrimPrefix (FilePath f) root)) pre2 = Some j"
    and rest2: "replay root j (r # post) = Some idx'"
    by blast
  from replay_mono[OF j, of "Hash f"] assms(2)
  have "j (Hash r) = Some (TrimPrefix (FilePath f) root)" by simp
  with rest2 f show ?thesis by (auto split: if_splits)
qed

lemma replay_count:
  "replay root idx rs = Some idx' \<Longrightarrow>
     length (filter (\<lambda>x. Hash x = h \<and> \<not> AlreadySeen x) rs) =
       (if idx h = None \<and> h \<in> Hash ` set rs then 1 else 0)"
proof (induction rs arbitrary: idx)
  case Nil
  then show ?case by simp
next
  case (Cons r rs)
  show ?case
  proof (cases "idx (Hash r)")
    case None
    with Cons.prems have a: "\<not> AlreadySeen r"
      and b: "replay root (idx(Hash r \<mapsto> TrimPrefix (FilePath r) root)) rs = Some idx'"
      by (auto split: if_splits)
    from Cons.IH[OF b] a None show ?thesis by auto
  next
    case (Some q)
    with Cons.prems have a: "AlreadySeen r" and b: "replay root idx rs = Some idx'"
      by (auto split: if_splits)
    from Cons.IH[OF b] a Some show ?thesis by auto
  qed
qed

lemma walkFn_replay:
  "walkFn env w p i e = (r, w', evs) \<Longrightarrow> \<not> AllowDupes (config w) \<Longrightarrow>
   FoundFileFn (config w) \<noteq> None \<Longrightarrow>
     replay (absTargetDirPath w) (fileHashesToPrevious w) (reports evs)
       = Some (fileHashesToPrevious w')"
  by (auto simp: walkFn_def fileWalkFunc_def report_def
           split: option.splits if_splits sum.splits)

lemma search_replay:
  assumes "search env w = (r, w', evs)" and "\<not> AllowDupes (config w)"
    and "FoundFileFn (config w) \<noteq> None"
  shows "replay (absTargetDirPath w) (fileHashesToPrevious w) (reports evs)
           = Some (fileHashesToPrevious w')"
proof -
  let ?R = "\<lambda>w evs w'. config w' = config w \<and> absTargetDirPath w' = absTargetDirPath w \<and>
     (\<not> AllowDupes (config w) \<and> FoundFileFn (config w) \<noteq> None \<longrightarrow>
        replay (absTargetDirPath w) (fileHashesToPrevious w) (reports evs)
          = Some (fileHashesToPrevious w'))"
  have "?R w evs w'"
  proof (rule search_trace_rel[where R = ?R, OF _ _ _ _ _ assms(1)])
    fix w p i e r w' evs
    assume "walkFn env w p i e = (r, w', evs)"
    then show "?R w evs w'"
      using walkFn_replay walkFn_frame by blast
  qed (auto simp: reports_append replay_append)
  with assms(2,3) show ?thesis by simp
qed

text \<open>
  What the walk with duplicate tracking does guarantee. Take the records
  handed to the found callback in the order of the walk, and any record
  \<open>r\<close> among them. Its \<^verbatim>\<open>Hash\<close> is the digest \<^verbatim>\<open>hashFile\<close> computes for
  its file. If no earlier record has the digest of \<open>r\<close>, then \<open>r\<close> is
  reported with \<^verbatim>\<open>AlreadySeen = false\<close> and the index maps its digest,
  until the end of the walk, to
  \<^verbatim>\<open>strings.TrimPrefix(filePath, absTargetDirPath)\<close>. If \<open>f\<close> is the first
  earlier record with that digest, then \<open>f\<close> was reported as unseen and
  \<open>r\<close> is reported with \<^verbatim>\<open>AlreadySeen = true\<close> and carries the string
  stored for \<open>f\<close>. Exactly one record with the digest of \<open>r\<close> has
  \<^verbatim>\<open>AlreadySeen = false\<close>.
\<close>

lemma dedup_first_seen_then_duplicates:
  assumes "\<not> AllowDupes cfg"
    and "newFileWalker env cfg = (Inr w, evs0)"
    and "search env w = (res, w', trace)"
    and "reports trace = pre @ r # post"
  shows "hashFile env (FilePath r) (pickHasher env cfg) = Inr (Hash r) \<and>
         (Hash r \<notin> Hash ` set pre \<longrightarrow>
            \<not> AlreadySeen r \<and> PreviousFilePath r = [] \<and>
            fileHashesToPrevious w' (Hash r)
              = Some (TrimPrefix (FilePath r) (absTargetDirPath w))) \<and>
         (\<forall>pre1 f pre2. pre = pre1 @ f # pre2 \<and> Hash f = Hash r \<and>
                         Hash f \<notin> Hash ` set pre1 \<longrightarrow>
            \<not> AlreadySeen f \<and> AlreadySeen r \<and>
            PreviousFilePath r = TrimPrefix (FilePath f) (absTargetDirPath w) \<and>
            fileHashesToPrevious w' (Hash r)
              = Some (TrimPrefix (FilePath f) (absTargetDirPath w))) \<and>
         length (filter (\<lambda>x. Hash x = Hash r \<and> \<not> AlreadySeen x) (reports trace)) = 1"
proof -
  from assms(2) have w: "config w = cfg" "fileHashesToPrevious w = Map.empty"
    and v: "FoundFileFn cfg \<noteq> None"
    by (auto simp: newFileWalker_def Validate_def split: option.splits sum.splits if_splits)
  let ?root = "absTargetDirPath w"
  from search_replay[OF assms(3)] w v assms(1,4)
  have rp: "replay ?root Map.empty (pre @ r # post) = Some (fileHashesToPrevious w')"
    by simp
  have first: "\<not> AlreadySeen r \<and> PreviousFilePath r = [] \<and>
      fileHashesToPrevious w' (Hash r) = Some (TrimPrefix (FilePath r) ?root)"
    if "Hash r \<notin> Hash ` set pre"
    using replay_first[OF rp _ that] by simp
  have later: "\<not> AlreadySeen f \<and> AlreadySeen r \<and>
      PreviousFilePath r = TrimPrefix (FilePath f) ?root \<and>
      fileHashesToPrevious w' (Hash r) = Some (TrimPrefix (FilePath f) ?root)"
    if "pre = pre1 @ f # pre2" "Hash f = Hash r" "Hash f \<notin> Hash ` set pre1"
    for pre1 f pre2
  proof -
    from rp that(1) have
      rp': "replay ?root Map.empty (pre1 @ f # pre2 @ r # post) = Some (fileHashesToPrevious w')"
      by simp
    from replay_later[OF rp' that(2) _ that(3)] replay_first[OF rp' _ that(3)] that(2)
    show ?thesis by simp
  qed
  have one: "length (filter (\<lambda>x. Hash x = Hash r \<and> \<not> AlreadySeen x) (reports trace)) = 1"
    using replay_count[OF rp, of "Hash r"] by (simp add: assms(4))
  from assms(4) have "r \<in> set (reports trace)" by simp
  then have "EvFound r \<in> set trace" by (simp add: set_reports)
  from search_found_digest[OF assms(3) _ this] w(1) assms(1)
  have "hashFile env (FilePath r) (pickHasher env cfg) = Inr (Hash r)" by simp
  with first later one show ?thesis by blast
qed

text \<open>
  No accepted file is left out: the records, in order, are the visited
  regular files that the include predicate accepts and whose hashing
  succeeds, each with its digest.
\<close>

lemma walkFn_hashed_reported:
  assumes "walkFn env w p i e = (r, w', evs)"
    and "\<not> AllowDupes (config w)" and "IncludeFileFn (config w) = Some accept"
    and "FoundFileFn (config w) \<noteq> None"
  shows "map (\<lambda>x. (FilePath x, Inr (Hash x))) (reports evs) =
           filter (\<lambda>x. \<not> isl (snd x))
             (map (\<lambda>q. (q, hashFile env q (pickHasher env (config w))))
                  (accepted_visits accept evs))"
  using assms
  by (auto simp: walkFn_def fileWalkFunc_def report_def IsDir_def IsRegular_def
           split: option.splits if_splits sum.splits)

lemma search_hashed_reported:
  assumes "search env w = (r, w', evs)"
    and "\<not> AllowDupes (config w)" and "IncludeFileFn (config w) = Some accept"
    and "FoundFileFn (config w) \<noteq> None"
  shows "map (\<lambda>x. (FilePath x, Inr (Hash x))) (reports evs) =
           filter (\<lambda>x. \<not> isl (snd x))
             (map (\<lambda>q. (q, hashFile env q (pickHasher env (config w))))
                  (accepted_visits accept evs))"
proof -
  let ?R = "\<lambda>(w :: statefulFileWalker) evs (w' :: statefulFileWalker).
     config w' = config w \<and>
     (\<not> AllowDupes (config w) \<and> IncludeFileFn (config w) = Some accept \<and>
      FoundFileFn (config w) \<noteq> None \<longrightarrow>
        map (\<lambda>x. (FilePath x, Inr (Hash x))) (reports evs) =
           filter (\<lambda>x. \<not> isl (snd x))
             (map (\<lambda>q. (q, hashFile env q (pickHasher env (config w))))
                  (accepted_visits accept evs)))"
  have "?R w evs w'"
  proof (rule search_trace_rel[where R = ?R, OF _ _ _ _ _ assms(1)])
    fix w p i e r w' evs
    assume "walkFn env w p i e = (r, w', evs)"
    then show "?R w evs w'"
      using walkFn_hashed_reported walkFn_frame by blast
  qed (auto simp: reports_append accepted_visits_append)
  with assms(2,3,4) show ?thesis by simp
qed

lemma accepted_hashed_files_reported:
  assumes "\<not> AllowDupes cfg"
    and "newFileWalker env cfg = (Inr w, evs0)"
    and "search env w = (res, w', trace)"
    and "IncludeFileFn cfg = Some accept"
  shows "map (\<lambda>x. (FilePath x, Inr (Hash x))) (reports trace) =
           filter (\<lambda>x. \<not> isl (snd x))
             (map (\<lambda>q. (q, hashFile env q (pickHasher env cfg)))
                  (accepted_visits accept trace))"
proof -
  from assms(2) have "config w = cfg" "FoundFileFn cfg \<noteq> None"
    by (auto simp: newFileWalker_def Validate_def split: option.splits sum.splits if_splits)
  with search_hashed_reported[OF assms(3), of accept] assms(1,4) show ?thesis by simp
qed

text \<open>
  Claim C1. The order of the reports, the \<^verbatim>\<open>AlreadySeen\<close> flags and the
  single unseen report per digest are as the claim says, but what is inserted
  into the index for the first file, and carried by every later file with
  its digest, is not the first file's relative path. In the first example
  \<open>a.txt\<close> is reached as \<open>Join ''/r'' ''a.txt''\<close> and reported first;
  the index then maps its digest to \<open>/a.txt\<close>, and the duplicate
  \<open>b.txt\<close> carries \<open>/a.txt\<close>, where the relative path is \<open>a.txt\<close>.
  This is the prefix strip of claim C2.
\<close>

theorem C1_index_receives_separator_and_name:
  "newFileWalker env_A cfg_A = (Inr walker_A, [EvAbs ''/r'']) \<and>
   reports (snd (snd (search env_A walker_A))) = [report_a, report_b] \<and>
   FilePath report_a = Join ''/r'' ''a.txt'' \<and> \<not> AlreadySeen report_a \<and>
   Hash report_b = Hash report_a \<and> AlreadySeen report_b \<and>
   fileHashesToPrevious (fst (snd (search env_A walker_A))) (Hash report_a) = Some ''/a.txt'' \<and>
   PreviousFilePath report_b = ''/a.txt'' \<and>
   ''/a.txt'' \<noteq> ''a.txt''"
  by (simp add: scenario_A_walker scenario_A_search report_a_def report_b_def Join_def)

section \<open>The path carried by a duplicate\<close>

text \<open>
  What \<^verbatim>\<open>strings.TrimPrefix(filePath, absTargetDirPath)\<close> leaves of the
  path of an entry directly in a root that does not end in a separator.
\<close>

lemma TrimPrefix_Join:
  assumes "root \<noteq> []" and "last root \<noteq> CHR ''/''" and "name \<noteq> []"
  shows "TrimPrefix (Join root name) root = ''/'' @ name"
  using assms by (simp add: TrimPrefix_def Join_def)

text \<open>
  Claim C2. The value stored for a first-seen file is
  \<^verbatim>\<open>strings.TrimPrefix(filePath, absTargetDirPath)\<close>, and a later duplicate
  carries it. In the first example the walk reaches \<open>a.txt\<close> as
  \<open>Join ''/r'' ''a.txt''\<close>, so its path relative to the root is
  \<open>a.txt\<close>; the duplicate \<open>b.txt\<close> carries \<open>/a.txt\<close>, the separator
  followed by the relative path.
\<close>

theorem C2_duplicate_carries_separator_and_name:
  "map (\<lambda>r. (FilePath r, AlreadySeen r, PreviousFilePath r))
       (reports (snd (FindUniqueFiles env_A cfg_A)))
     = [(Join ''/r'' ''a.txt'', False, []), (Join ''/r'' ''b.txt'', True, ''/a.txt'')] \<and>
   TrimPrefix (Join ''/r'' ''a.txt'') ''/r'' = ''/a.txt'' \<and>
   ''/a.txt'' \<noteq> ''a.txt''"
  by (simp add: scenario_A report_a_def report_b_def Join_def TrimPrefix_def)

section \<open>Which entries reach the include predicate\<close>

lemma walkFn_include_iff:
  assumes "walkFn env w p i e = (r, w', evs)" and "IncludeFileFn (config w) \<noteq> None"
  shows "EvInclude q \<in> set evs \<longleftrightarrow> (\<exists>j. EvVisit q (Some j) None \<in> set evs \<and> IsRegular j)"
  using assms
  by (auto simp: walkFn_def fileWalkFunc_def report_def IsDir_def IsRegular_def
           split: option.splits if_splits sum.splits)

lemma search_include_iff:
  assumes "search env w = (r, w', evs)" and "IncludeFileFn (config w) \<noteq> None"
  shows "EvInclude q \<in> set evs \<longleftrightarrow> (\<exists>j. EvVisit q (Some j) None \<in> set evs \<and> IsRegular j)"
proof -
  let ?R = "\<lambda>w evs w'. config w' = config w \<and> (IncludeFileFn (config w) \<noteq> None \<longrightarrow>
     (EvInclude q \<in> set evs \<longleftrightarrow> (\<exists>j. EvVisit q (Some j) None \<in> set evs \<and> IsRegular j)))"
  have "?R w evs w'"
  proof (rule search_trace_rel[where R = ?R, OF _ _ _ _ _ assms(1)])
    fix w p i e r w' evs
    assume "walkFn env w p i e = (r, w', evs)"
    then show "?R w evs w'"
      using walkFn_include_iff walkFn_frame by blast
  qed auto
  with assms(2) show ?thesis by simp
qed

text \<open>
  Claim C3, as the code has it. The include predicate is called with a path
  exactly when the walk function was called for that path with no error and
  the metadata of a regular file. Directories and non-regular entries
  (symbolic links, devices, named pipes, sockets) are skipped before the
  predicate is reached.
\<close>

theorem C3_include_called_for_regular_files_only:
  assumes "FindUniqueFiles env cfg = (res, trace)"
  shows "EvInclude p \<in> set trace \<longleftrightarrow>
           (\<exists>i. EvVisit p (Some i) None \<in> set trace \<and> IsRegular i)"
proof (cases rule: FindUniqueFiles_cases[of cfg env])
  case (invalid e)
  with assms show ?thesis by auto
next
  case (unresolved e)
  with assms show ?thesis by auto
next
  case (walked root r w' evs)
  from walked(1) have "IncludeFileFn cfg \<noteq> None"
    by (auto simp: Validate_def split: if_splits)
  with search_include_iff[OF walked(4), of p]
  have "EvInclude p \<in> set evs \<longleftrightarrow> (\<exists>i. EvVisit p (Some i) None \<in> set evs \<and> IsRegular i)"
    by simp
  moreover have "trace = EvAbs (TargetDirPath cfg) # evs"
    using walked(5) assms by simp
  ultimately show ?thesis by simp
qed

text \<open>
  Claim C3 as stated fails: the symbolic link \<open>/r/l\<close> of the example is
  visited, and the include predicate is not called with its path.
\<close>

theorem C3_symlink_visited_not_included:
  "EvVisit ''/r/l'' (Some \<lparr>Mode = ModeFile Symlink\<rparr>) None
     \<in> set (snd (FindUniqueFiles env_A cfg_A)) \<and>
   EvInclude ''/r/l'' \<notin> set (snd (FindUniqueFiles env_A cfg_A))"
  by (simp add: eval_defs env_A_def cfg_A_def)

text \<open>The regular file \<open>/r/a.txt\<close> of the example is visited and offered to the predicate.\<close>

theorem C3_include_called_for_regular_files_only_witness:
  "EvVisit ''/r/a.txt'' (Some \<lparr>Mode = ModeFile Regular\<rparr>) None
     \<in> set (snd (FindUniqueFiles env_A cfg_A)) \<and>
   IsRegular \<lparr>Mode = ModeFile Regular\<rparr> \<and>
   EvInclude ''/r/a.txt'' \<in> set (snd (FindUniqueFiles env_A cfg_A))"
proof -
  have v: "EvVisit ''/r/a.txt'' (Some \<lparr>Mode = ModeFile Regular\<rparr>) None
     \<in> set (snd (FindUniqueFiles env_A cfg_A))"
    by (simp add: eval_defs env_A_def cfg_A_def)
  have r: "IsRegular \<lparr>Mode = ModeFile Regular\<rparr>" by (simp add: IsRegular_def)
  from C3_include_called_for_regular_files_only[of env_A cfg_A
      "fst (FindUniqueFiles env_A cfg_A)" "snd (FindUniqueFiles env_A cfg_A)" "''/r/a.txt''"] v r
  have "EvInclude ''/r/a.txt'' \<in> set (snd (FindUniqueFiles env_A cfg_A))" by auto
  with v r show ?thesis by simp
qed

section \<open>Walking without duplicate tracking\<close>


lemma walkFn_AllowDupes:
  "walkFn env w p i e = (r, w', evs) \<Longrightarrow> AllowDupes (config w) \<Longrightarrow>
     \<forall>ev \<in> set evs. (case ev of EvFound r \<Rightarrow> \<not> AlreadySeen r \<and> Hash r = [] \<and> PreviousFilePath r = []
      | EvHashFile p h \<Rightarrow> False | _ \<Rightarrow> True)"
  by (auto simp: walkFn_def fileWalkFunc_def report_def
           split: option.splits if_splits sum.splits)

lemma search_AllowDupes:
  assumes "search env w = (r, w', evs)" and "AllowDupes (config w)"
  shows "\<forall>ev \<in> set evs. (case ev of EvFound r \<Rightarrow> \<not> AlreadySeen r \<and> Hash r = [] \<and> PreviousFilePath r = []
      | EvHashFile p h \<Rightarrow> False | _ \<Rightarrow> True)"
proof -
  let ?R = "\<lambda>w evs w'. config w' = config w \<and> (AllowDupes (config w) \<longrightarrow>
     (\<forall>ev \<in> set evs. (case ev of EvFound r \<Rightarrow> \<not> AlreadySeen r \<and> Hash r = [] \<and> PreviousFilePath r = []
      | EvHashFile p h \<Rightarrow> False | _ \<Rightarrow> True)))"
  have "?R w evs w'"
  proof (rule search_trace_rel[where R = ?R, OF _ _ _ _ _ assms(1)])
    fix w p i e r w' evs
    assume "walkFn env w p i e = (r, w', evs)"
    then show "?R w evs w'"
      using walkFn_AllowDupes walkFn_frame by blast
  qed auto
  with assms(2) show ?thesis by simp
qed

lemma walkFn_AllowDupes_reported:
  assumes "walkFn env w p i e = (r, w', evs)"
    and "AllowDupes (config w)" and "IncludeFileFn (config w) = Some accept"
    and "FoundFileFn (config w) \<noteq> None"
  shows "map FilePath (reports evs) = accepted_visits accept evs"
  using assms
  by (auto simp: walkFn_def fileWalkFunc_def report_def IsDir_def IsRegular_def
           split: option.splits if_splits sum.splits)

lemma search_AllowDupes_reported:
  assumes "search env w = (r, w', evs)"
    and "AllowDupes (config w)" and "IncludeFileFn (config w) = Some accept"
    and "FoundFileFn (config w) \<noteq> None"
  shows "map FilePath (reports evs) = accepted_visits accept evs"
proof -
  let ?R = "\<lambda>(w :: statefulFileWalker) evs (w' :: statefulFileWalker).
     config w' = config w \<and>
     (AllowDupes (config w) \<and> IncludeFileFn (config w) = Some accept \<and>
      FoundFileFn (config w) \<noteq> None \<longrightarrow>
        map FilePath (reports evs) = accepted_visits accept evs)"
  have "?R w evs w'"
  proof (rule search_trace_rel[where R = ?R, OF _ _ _ _ _ assms(1)])
    fix w p i e r w' evs
    assume "walkFn env w p i e = (r, w', evs)"
    then show "?R w evs w'"
      using walkFn_AllowDupes_reported walkFn_frame by blast
  qed (auto simp: reports_append accepted_visits_append)
  with assms(2,3,4) show ?thesis by simp
qed

lemma accepted_visits_iff:
  "p \<in> set (accepted_visits accept evs) \<longleftrightarrow>
     accept p \<and> (\<exists>i. EvVisit p (Some i) None \<in> set evs \<and> IsRegular i)"
  by (induction accept evs rule: accepted_visits.induct) auto

text \<open>
  Claim C4. With \<^verbatim>\<open>AllowDupes\<close> set, every accepted file is reported,
  and reported as unseen with no digest: the paths of the records handed to
  \<^verbatim>\<open>FoundFileFn\<close> are, in order, the paths of the visited regular files
  that the include predicate accepts, so each path the predicate was called
  with and accepted has a record; every record has
  \<^verbatim>\<open>AlreadySeen = false\<close>, an empty \<^verbatim>\<open>Hash\<close> and an empty
  \<^verbatim>\<open>PreviousFilePath\<close>; and \<^verbatim>\<open>hashFile\<close> is never called, whatever the
  files contain.
\<close>

theorem C4_allow_dupes_no_hashing:
  assumes "AllowDupes cfg" and "FindUniqueFiles env cfg = (res, trace)"
  shows "(\<forall>r. EvFound r \<in> set trace \<longrightarrow>
            \<not> AlreadySeen r \<and> Hash r = [] \<and> PreviousFilePath r = []) \<and>
         (\<forall>p h. EvHashFile p h \<notin> set trace) \<and>
         (\<forall>accept. IncludeFileFn cfg = Some accept \<longrightarrow>
            map FilePath (reports trace) = accepted_visits accept trace \<and>
            (\<forall>p. EvInclude p \<in> set trace \<and> accept p \<longrightarrow>
               (\<exists>r. EvFound r \<in> set trace \<and> FilePath r = p \<and>
                    \<not> AlreadySeen r \<and> Hash r = [] \<and> PreviousFilePath r = [])))"
proof (cases rule: FindUniqueFiles_cases[of cfg env])
  case (invalid e)
  with assms show ?thesis by simp
next
  case (unresolved e)
  with assms show ?thesis by auto
next
  case (walked root r w' evs)
  have tr: "trace = EvAbs (TargetDirPath cfg) # evs"
    using walked(5) assms(2) by simp
  from search_AllowDupes[OF walked(4)] assms(1)
  have "\<forall>ev \<in> set evs. (case ev of EvFound r \<Rightarrow> \<not> AlreadySeen r \<and> Hash r = [] \<and> PreviousFilePath r = []
      | EvHashFile p h \<Rightarrow> False | _ \<Rightarrow> True)" by simp
  with tr have plain: "\<forall>r. EvFound r \<in> set trace \<longrightarrow>
            \<not> AlreadySeen r \<and> Hash r = [] \<and> PreviousFilePath r = []"
    and nohash: "\<forall>p h. EvHashFile p h \<notin> set trace"
    by fastforce+
  from walked(1) have found: "FoundFileFn cfg \<noteq> None"
    by (auto simp: Validate_def split: if_splits)
  have rep: "map FilePath (reports trace) = accepted_visits accept trace \<and>
        (\<forall>p. EvInclude p \<in> set trace \<and> accept p \<longrightarrow>
           (\<exists>r. EvFound r \<in> set trace \<and> FilePath r = p \<and>
                \<not> AlreadySeen r \<and> Hash r = [] \<and> PreviousFilePath r = []))"
    if inc: "IncludeFileFn cfg = Some accept" for accept
  proof -
    from search_AllowDupes_reported[OF walked(4), of accept] assms(1) inc found tr
    have eq: "map FilePath (reports trace) = accepted_visits accept trace" by simp
    have "\<exists>r. EvFound r \<in> set trace \<and> FilePath r = p \<and>
                \<not> AlreadySeen r \<and> Hash r = [] \<and> PreviousFilePath r = []"
      if "EvInclude p \<in> set trace" "accept p" for p
    proof -
      from that(1) tr have "EvInclude p \<in> set evs" by simp
      with search_include_iff[OF walked(4), of p] inc
      have "\<exists>i. EvVisit p (Some i) None \<in> set evs \<and> IsRegular i" by simp
      with that(2) tr have "p \<in> set (accepted_visits accept trace)"
        by (auto simp: accepted_visits_iff)
      with eq have "p \<in> FilePath ` set (reports trace)" by (metis set_map)
      then obtain r where "EvFound r \<in> set trace" "FilePath r = p"
        by (auto simp: set_reports)
      with plain show ?thesis by blast
    qed
    with eq show ?thesis by blast
  qed
  from plain nohash rep show ?thesis by blast
qed

text \<open>
  In the example \<open>b.txt\<close> has the content of \<open>a.txt\<close>; with
  \<^verbatim>\<open>AllowDupes\<close> both accepted files are reported, \<open>b.txt\<close> as unseen
  and with no digest.
\<close>

theorem C4_allow_dupes_no_hashing_witness:
  "AllowDupes (cfg_A\<lparr>AllowDupes := True\<rparr>) \<and>
   IncludeFileFn (cfg_A\<lparr>AllowDupes := True\<rparr>) = Some (\<lambda>p. True) \<and>
   accepted_visits (\<lambda>p. True) (snd (FindUniqueFiles env_A (cfg_A\<lparr>AllowDupes := True\<rparr>)))
     = [''/r/a.txt'', ''/r/b.txt''] \<and>
   map FilePath (reports (snd (FindUniqueFiles env_A (cfg_A\<lparr>AllowDupes := True\<rparr>))))
     = [''/r/a.txt'', ''/r/b.txt''] \<and>
   EvInclude ''/r/b.txt'' \<in> set (snd (FindUniqueFiles env_A (cfg_A\<lparr>AllowDupes := True\<rparr>))) \<and>
   EvFound \<lparr>AlreadySeen = False, FilePath = ''/r/b.txt'', PreviousFilePath = [],
            ParentDirPath = ''/r'', Hash = [], Info = \<lparr>Mode = ModeFile Regular\<rparr>,
            AbsSearchDirPath = ''/r''\<rparr>
     \<in> set (snd (FindUniqueFiles env_A (cfg_A\<lparr>AllowDupes := True\<rparr>))) \<and>
   EvHashFile ''/r/b.txt'' (Inr ''68'')
     \<notin> set (snd (FindUniqueFiles env_A (cfg_A\<lparr>AllowDupes := True\<rparr>)))"
proof -
  let ?cfg = "cfg_A\<lparr>AllowDupes := True\<rparr>"
  let ?t = "snd (FindUniqueFiles env_A ?cfg)"
  have a: "AllowDupes ?cfg" by simp
  have i: "IncludeFileFn ?cfg = Some (\<lambda>p. True)" by (simp add: cfg_A_def)
  have v: "accepted_visits (\<lambda>p. True) ?t = [''/r/a.txt'', ''/r/b.txt'']"
    by (simp add: eval_defs env_A_def cfg_A_def)
  have f: "EvFound \<lparr>AlreadySeen = False, FilePath = ''/r/b.txt'', PreviousFilePath = [],
            ParentDirPath = ''/r'', Hash = [], Info = \<lparr>Mode = ModeFile Regular\<rparr>,
            AbsSearchDirPath = ''/r''\<rparr> \<in> set ?t"
    and n: "EvInclude ''/r/b.txt'' \<in> set ?t"
    by (simp_all add: eval_defs env_A_def cfg_A_def)
  from C4_allow_dupes_no_hashing[OF a prod.collapse[symmetric]] i
  have h: "EvHashFile ''/r/b.txt'' (Inr ''68'') \<notin> set ?t"
    and m: "map FilePath (reports ?t) = accepted_visits (\<lambda>p. True) ?t"
    by blast+
  from a i v m n f h show ?thesis by simp
qed

section \<open>The non-recursive walk\<close>

lemma walk_pruned:
  assumes "\<not> Recursive (config w)" and "path \<noteq> absTargetDirPath w"
  shows "walk env w path (Directory rderr names) =
           (case rderr of None \<Rightarrow> Some SkipDir | Some e \<Rightarrow> Some e, w,
            [EvReadDir path, EvVisit path (Some \<lparr>Mode = ModeDir\<rparr>) rderr])"
  using assms
  by (auto simp: walk.simps(2) walkFn_def fileWalkFunc_def IsDir_def split: option.splits)

lemma walk_visits_path:
  assumes "\<not> Recursive (config w)" and "path \<noteq> absTargetDirPath w"
    and "walk env w path ent = (r, w', evs)" and "EvVisit q j f \<in> set evs"
  shows "q = path"
proof (cases ent)
  case (NonDir t)
  with assms(3,4) show ?thesis
    by (auto simp: walkFn_def fileWalkFunc_def report_def
             split: option.splits if_splits sum.splits)
next
  case (Directory rderr names)
  with assms(3,4) walk_pruned[OF assms(1,2), where env = env and rderr = rderr and names = names]
  show ?thesis by auto
qed

lemma walk_cut:
  assumes "\<not> Recursive (config w)" and "path \<noteq> absTargetDirPath w"
  shows "(case cut (Entry ent) of Entry ent' \<Rightarrow> walk env w path ent' = walk env w path ent
          | LstatFails e \<Rightarrow> False) \<and>
         (case cut (Entry ent) of Entry ent' \<Rightarrow> IsDir (info_of ent') = IsDir (info_of ent)
          | LstatFails e \<Rightarrow> False)"
  using walk_pruned[OF assms] by (cases ent) simp_all

lemma walkNames_top_level:
  assumes "walkNames env w root names = (r, w', evs)"
    and "\<not> Recursive (config w)" and "absTargetDirPath w = root"
    and "names_ok_list names"
  shows "(\<forall>q j f. EvVisit q j f \<in> set evs \<longrightarrow> q \<in> set (map (\<lambda>(name, node). Join root name) names)) \<and>
         walkNames env w root (map (\<lambda>(name, node). (name, cut node)) names) = (r, w', evs)"
  using assms
proof (induction names arbitrary: w r w' evs)
  case Nil
  then show ?case by simp
next
  case (Cons a rest)
  obtain name node where a: "a = (name, node)" by (cases a)
  show ?case
  proof (cases node)
    case (LstatFails e)
    from Cons.prems(4) a LstatFails have ok: "names_ok_list rest" by simp
    from Cons.prems(1)[unfolded a LstatFails] show ?thesis
    proof (cases rule: walkNames_LstatFailsE)
      case (stop evs1)
      then show ?thesis
        using a LstatFails by (auto simp: walkNames.simps(2) dest: walkFn_visit_path)
    next
      case (continue err w1 evs1 evs2)
      from walkFn_frame[OF continue(1)] Cons.prems(2,3)
      have "\<not> Recursive (config w1)" "absTargetDirPath w1 = root" by simp_all
      from Cons.IH[OF continue(3) this ok] continue a LstatFails show ?thesis
        by (auto simp: walkNames.simps(2) dest: walkFn_visit_path)
    qed
  next
    case (Entry ent)
    from Cons.prems(4) a Entry have n: "name \<noteq> []" and ok: "names_ok_list rest" by simp_all
    from Join_longer[OF n, of root] Cons.prems(3)
    have ne: "Join root name \<noteq> absTargetDirPath w" by auto
    note c = walk_cut[OF Cons.prems(2) ne, where ent = ent and env = env]
    note v = walk_visits_path[OF Cons.prems(2) ne]
    obtain ent' where ent': "cut (Entry ent) = Entry ent'"
      "walk env w (Join root name) ent' = walk env w (Join root name) ent"
      "IsDir (info_of ent') = IsDir (info_of ent)"
      using c by (cases "cut (Entry ent)") auto
    from Cons.prems(1)[unfolded a Entry] show ?thesis
    proof (cases rule: walkNames_EntryE)
      case (stop evs1)
      then show ?thesis
        using a Entry ent' v[OF stop(1)] by (auto simp: walkNames.simps(3))
    next
      case (continue err w1 evs1 evs2)
      from walk_frame(1)[OF continue(1)] Cons.prems(2,3)
      have "\<not> Recursive (config w1)" "absTargetDirPath w1 = root" by simp_all
      from Cons.IH[OF continue(3) this ok] continue a Entry ent' v[OF continue(1)]
      show ?thesis
        by (auto simp: walkNames.simps(3))
    qed
  qed
qed

lemma pickHasher_fs_tree: "pickHasher (env\<lparr>fs_tree := t\<rparr>) cfg = pickHasher env cfg"
  by (cases "HasherFn cfg") (simp_all add: pickHasher_def)

lemma hashFile_fs_tree: "hashFile (env\<lparr>fs_tree := t\<rparr>) p h = hashFile env p h"
  by (simp add: hashFile_def)

lemma fileWalkFunc_fs_tree:
  "fileWalkFunc (env\<lparr>fs_tree := t\<rparr>) w p i e = fileWalkFunc env w p i e"
  unfolding fileWalkFunc_def hashFile_fs_tree pickHasher_fs_tree by (rule refl)

lemma walkFn_fs_tree: "walkFn (env\<lparr>fs_tree := t\<rparr>) w p i e = walkFn env w p i e"
  by (simp add: walkFn_def fileWalkFunc_fs_tree)

lemma walk_fs_tree:
  "walk (env\<lparr>fs_tree := t\<rparr>) w path ent = walk env w path ent"
  "walkNames (env\<lparr>fs_tree := t\<rparr>) w path names = walkNames env w path names"
proof (induction w path ent and w path names rule: walk_induct[where env = env])
  case (NonDir w path t)
  show ?case by (simp add: walkFn_fs_tree)
next
  case (Directory w path rderr names)
  then show ?case
    by (auto simp: walk.simps(2) walkFn_fs_tree split: prod.splits)
next
  case (Nil w path)
  show ?case by simp
next
  case (LstatFails w path name e rest)
  then show ?case
    by (auto simp: walkNames.simps(2) walkFn_fs_tree split: prod.splits)
next
  case (Entry w path name ent rest)
  then show ?case
    by (auto simp: walkNames.simps(3) split: prod.splits)
qed

lemma search_top_level:
  assumes "search env w = (r, w', evs)"
    and "\<not> Recursive (config w)"
    and "names_ok_node (fs_tree env (absTargetDirPath w))"
  shows "(\<forall>q j f. EvVisit q j f \<in> set evs \<longrightarrow>
            q = absTargetDirPath w \<or>
            q \<in> set (child_paths (absTargetDirPath w) (fs_tree env (absTargetDirPath w)))) \<and>
         search (env\<lparr>fs_tree := \<lambda>p. without_subtrees (fs_tree env p)\<rparr>) w = (r, w', evs)"
proof -
  let ?root = "absTargetDirPath w"
  let ?env' = "env\<lparr>fs_tree := \<lambda>p. without_subtrees (fs_tree env p)\<rparr>"
  show ?thesis
  proof (cases "fs_tree env ?root")
    case (LstatFails e)
    with assms(1) show ?thesis
      by (auto simp: search_def Walk_def walkFn_fs_tree split: prod.splits
               dest: walkFn_visit_path)
  next
    case (Entry ent)
    show ?thesis
    proof (cases ent)
      case (NonDir t)
      with Entry assms(1) show ?thesis
        by (auto simp: search_def Walk_def walkFn_fs_tree split: prod.splits
                 dest: walkFn_visit_path)
    next
      case (Directory rderr names)
      from assms(3) Entry Directory have ok: "names_ok_list names" by simp
      obtain err evs1 where run: "walk env w ?root (Directory rderr names) = (err, w', evs1)"
        and r: "r = (if err = Some SkipDir \<or> err = Some SkipAll then None else err)"
        and evs: "evs = EvLstat ?root # evs1"
        using assms(1) Entry Directory
        by (auto simp: search_def Walk_def split: prod.splits)
      let ?cut = "map (\<lambda>(name, node). (name, cut node)) names"
      have "(\<forall>q j f. EvVisit q j f \<in> set evs1 \<longrightarrow>
                q = ?root \<or> q \<in> set (map (\<lambda>(name, node). Join ?root name) names)) \<and>
            walk env w ?root (Directory rderr ?cut) = (err, w', evs1)"
        using run
      proof (cases rule: walk_DirectoryE)
        case (stop evs2)
        then show ?thesis
          by (auto simp: walk.simps(2) dest: walkFn_visit_path)
      next
        case (descend w1 evs2 evs3)
        from walkFn_frame[OF descend(1)] assms(2)
        have "\<not> Recursive (config w1)" "absTargetDirPath w1 = ?root" by simp_all
        from walkNames_top_level[OF descend(3) this ok] descend show ?thesis
          by (auto simp: walk.simps(2) dest: walkFn_visit_path)
      qed
      with r evs Entry Directory show ?thesis
        by (auto simp: search_def Walk_def walk_fs_tree)
    qed
  qed
qed

lemma walkFn_found_visit:
  "walkFn env w p i e = (r, w', evs) \<Longrightarrow> EvFound x \<in> set evs \<Longrightarrow>
     EvVisit (FilePath x) i e \<in> set evs"
  by (auto simp: walkFn_def fileWalkFunc_def report_def
           split: option.splits if_splits sum.splits)

lemma search_found_visit:
  assumes "search env w = (r, w', evs)" and "EvFound x \<in> set evs"
  shows "\<exists>i e. EvVisit (FilePath x) i e \<in> set evs"
proof -
  let ?R = "\<lambda>(w :: statefulFileWalker) evs (w' :: statefulFileWalker).
     EvFound x \<in> set evs \<longrightarrow> (\<exists>i e. EvVisit (FilePath x) i e \<in> set evs)"
  have "?R w evs w'"
  proof (rule search_trace_rel[where R = ?R, OF _ _ _ _ _ assms(1)])
    fix w p i e r w' evs
    assume "walkFn env w p i e = (r, w', evs)"
    then show "?R w evs w'"
      using walkFn_found_visit by blast
  qed auto
  with assms(2) show ?thesis by simp
qed

text \<open>
  Claim C5, as the code has it. Without the recursive flag, the walk
  function is called only for the root and for the entries listed directly
  in it, and so are the include predicate and the found callback: nothing
  inside a subdirectory of the root is presented to either. The walk is the same, result and trace, on the
  filesystem in which every subdirectory of the root has been emptied. A
  subdirectory that could be read is answered with \<^verbatim>\<open>SkipDir\<close>: it adds its
  own three events and no error, and the remaining entries of the root are
  walked as they would be without it. The theorem makes no promise of
  pruning for a directory that reaches the walk function with an error.
\<close>

theorem C5_non_recursive_stays_at_top_level:
  assumes "\<not> Recursive cfg"
    and "FindUniqueFiles env cfg = (res, trace)"
    and "fs_Abs env (TargetDirPath cfg) = Inr root"
    and "\<forall>p. names_ok_node (fs_tree env p)"
  shows "(\<forall>q i e. EvVisit q i e \<in> set trace \<longrightarrow>
            q = root \<or> q \<in> set (child_paths root (fs_tree env root))) \<and>
         (\<forall>q. EvInclude q \<in> set trace \<longrightarrow>
            q = root \<or> q \<in> set (child_paths root (fs_tree env root))) \<and>
         (\<forall>r. EvFound r \<in> set trace \<longrightarrow>
            FilePath r = root \<or> FilePath r \<in> set (child_paths root (fs_tree env root))) \<and>
         FindUniqueFiles (env\<lparr>fs_tree := \<lambda>p. without_subtrees (fs_tree env p)\<rparr>) cfg
           = (res, trace) \<and>
         (\<forall>w name kids rest. config w = cfg \<and> absTargetDirPath w = root \<and> name \<noteq> [] \<longrightarrow>
            walk env w (Join root name) (Directory None kids) =
              (Some SkipDir, w,
               [EvReadDir (Join root name),
                EvVisit (Join root name) (Some \<lparr>Mode = ModeDir\<rparr>) None]) \<and>
            walkNames env w root ((name, Entry (Directory None kids)) # rest) =
              (case walkNames env w root rest of
                 (r, w', evs) \<Rightarrow>
                   (r, w', [EvLstat (Join root name), EvReadDir (Join root name),
                            EvVisit (Join root name) (Some \<lparr>Mode = ModeDir\<rparr>) None] @ evs)))"
proof -
  have step: "walk env w (Join root name) (Directory None kids) =
              (Some SkipDir, w,
               [EvReadDir (Join root name),
                EvVisit (Join root name) (Some \<lparr>Mode = ModeDir\<rparr>) None]) \<and>
            walkNames env w root ((name, Entry (Directory None kids)) # rest) =
              (case walkNames env w root rest of
                 (r, w', evs) \<Rightarrow>
                   (r, w', [EvLstat (Join root name), EvReadDir (Join root name),
                            EvVisit (Join root name) (Some \<lparr>Mode = ModeDir\<rparr>) None] @ evs))"
    if "config w = cfg" "absTargetDirPath w = root" "name \<noteq> []" for w name kids rest
  proof -
    from Join_longer[OF that(3), of root] that(2)
    have ne: "Join root name \<noteq> absTargetDirPath w" by auto
    from that(1) assms(1) have nr: "\<not> Recursive (config w)" by simp
    from walk_pruned[OF nr ne, where env = env and rderr = None and names = kids]
    show ?thesis by (simp add: walkNames.simps(3) IsDir_def)
  qed
  show ?thesis
  proof (cases rule: FindUniqueFiles_cases[of cfg env])
    case (invalid e)
    from invalid(1)
    have "FindUniqueFiles (env\<lparr>fs_tree := \<lambda>p. without_subtrees (fs_tree env p)\<rparr>) cfg
            = (Some e, [])"
      by (simp add: FindUniqueFiles_def newFileWalker_def)
    moreover from invalid(2) assms(2) have "res = Some e" "trace = []" by simp_all
    ultimately show ?thesis using step by simp
  next
    case (unresolved e)
    with assms(3) show ?thesis by simp
  next
    case (walked root' r w' evs)
    with assms(2,3) have root': "root' = root"
      and out: "res = r" "trace = EvAbs (TargetDirPath cfg) # evs" by simp_all
    let ?w = "\<lparr>absTargetDirPath = root, fileHashesToPrevious = Map.empty, config = cfg\<rparr>"
    from walked(4) root' have run: "search env ?w = (r, w', evs)" by simp
    from search_top_level[OF run] assms(1,4)
    have visits: "\<forall>q j f. EvVisit q j f \<in> set evs \<longrightarrow>
              q = root \<or> q \<in> set (child_paths root (fs_tree env root))"
      and same: "search (env\<lparr>fs_tree := \<lambda>p. without_subtrees (fs_tree env p)\<rparr>) ?w
                   = (r, w', evs)"
      by simp_all
    from walked(1) have inc: "IncludeFileFn (config ?w) \<noteq> None"
      by (auto simp: Validate_def split: if_splits)
    have incl: "\<forall>q. EvInclude q \<in> set evs \<longrightarrow>
              q = root \<or> q \<in> set (child_paths root (fs_tree env root))"
      using search_include_iff[OF run inc] visits by blast
    have founds: "\<forall>x. EvFound x \<in> set evs \<longrightarrow>
              FilePath x = root \<or> FilePath x \<in> set (child_paths root (fs_tree env root))"
      using search_found_visit[OF run] visits by blast
    have "FindUniqueFiles (env\<lparr>fs_tree := \<lambda>p. without_subtrees (fs_tree env p)\<rparr>) cfg
             = (res, trace)"
      using same walked(1) assms(3) out by (simp add: FindUniqueFiles_def newFileWalker_def)
    with visits incl founds out step show ?thesis by auto
  qed
qed

text \<open>
  Claim C5 as stated fails for a subdirectory that cannot be read: the walk
  function checks the error it is handed before anything else and returns it,
  so the subdirectory is not skipped without error. In the fourth example the
  non-recursive walk ends at \<open>/r/sub\<close> with its read error, and
  \<open>/r/z.txt\<close> is never visited.
\<close>

theorem C5_unreadable_subdirectory_is_not_pruned:
  "\<not> Recursive cfg_A \<and>
   fileWalkFunc env_D walker_A ''/r/sub'' (Some \<lparr>Mode = ModeDir\<rparr>)
       (Some (Errorf ''permission denied''))
     = (Some (Errorf ''permission denied''), walker_A, []) \<and>
   FindUniqueFiles env_D cfg_A =
     (Some (Errorf ''permission denied''),
      [EvAbs ''/r'', EvLstat ''/r'', EvReadDir ''/r'',
       EvVisit ''/r'' (Some \<lparr>Mode = ModeDir\<rparr>) None,
       EvLstat ''/r/sub'', EvReadDir ''/r/sub'',
       EvVisit ''/r/sub'' (Some \<lparr>Mode = ModeDir\<rparr>) (Some (Errorf ''permission denied''))])"
  by (simp add: eval_defs env_D_def cfg_A_def walker_A_def)

text \<open>
  In the first example \<open>/r/sub/c.txt\<close> is never presented, and emptying
  \<open>sub\<close> changes nothing.
\<close>

theorem C5_non_recursive_stays_at_top_level_witness:
  "\<not> Recursive cfg_A \<and>
   fs_Abs env_A (TargetDirPath cfg_A) = Inr ''/r'' \<and>
   (\<forall>p. names_ok_node (fs_tree env_A p)) \<and>
   child_paths ''/r'' (fs_tree env_A ''/r'') = [''/r/a.txt'', ''/r/b.txt'', ''/r/l'', ''/r/sub''] \<and>
   EvInclude ''/r/sub/c.txt'' \<notin> set (snd (FindUniqueFiles env_A cfg_A)) \<and>
   EvInclude ''/r/b.txt'' \<in> set (snd (FindUniqueFiles env_A cfg_A)) \<and>
   FindUniqueFiles (env_A\<lparr>fs_tree := \<lambda>p. without_subtrees (fs_tree env_A p)\<rparr>) cfg_A
     = FindUniqueFiles env_A cfg_A"
proof -
  have nr: "\<not> Recursive cfg_A" by (simp add: cfg_A_def)
  have ab: "fs_Abs env_A (TargetDirPath cfg_A) = Inr ''/r''"
    by (simp add: env_A_def cfg_A_def)
  have cp: "child_paths ''/r'' (fs_tree env_A ''/r'')
              = [''/r/a.txt'', ''/r/b.txt'', ''/r/l'', ''/r/sub'']"
    by (simp add: env_A_def Join_def)
  have inc: "EvInclude ''/r/b.txt'' \<in> set (snd (FindUniqueFiles env_A cfg_A))"
    by (simp add: scenario_A)
  from C5_non_recursive_stays_at_top_level[OF nr prod.collapse[symmetric] ab scenario_A_names]
  have i: "\<forall>q. EvInclude q \<in> set (snd (FindUniqueFiles env_A cfg_A)) \<longrightarrow>
             q = ''/r'' \<or> q \<in> set (child_paths ''/r'' (fs_tree env_A ''/r''))"
    and e: "FindUniqueFiles (env_A\<lparr>fs_tree := \<lambda>p. without_subtrees (fs_tree env_A p)\<rparr>) cfg_A
              = (fst (FindUniqueFiles env_A cfg_A), snd (FindUniqueFiles env_A cfg_A))"
    by blast+
  from i[rule_format, of "''/r/sub/c.txt''"] cp
  have "EvInclude ''/r/sub/c.txt'' \<notin> set (snd (FindUniqueFiles env_A cfg_A))" by auto
  with nr ab scenario_A_names cp inc e show ?thesis by simp
qed

section \<open>A failing found callback\<close>

text \<open>
  Claim C6, as the code has it. If the found callback returns an error other
  than the sentinels \<^verbatim>\<open>filepath.SkipDir\<close> and \<^verbatim>\<open>filepath.SkipAll\<close>, that call
  is the last event of the walk (no further entry is visited or reported) and
  the walk returns that error unchanged.
\<close>

theorem C6_callback_failure_aborts:
  assumes "FindUniqueFiles env cfg = (res, trace)"
    and "FoundFileFn cfg = Some found"
    and "trace = pre @ EvFound r # post"
    and "found r = Some e"
    and "e \<noteq> SkipDir" and "e \<noteq> SkipAll"
  shows "post = [] \<and> res = Some e"
proof -
  have "fatal_error cfg (EvFound r) = Some e"
    using assms(2,4,5,6) by (simp add: fatal_error_def)
  with FindUniqueFiles_aborts[OF assms(1)] assms(3) show ?thesis
    by (auto dest: aborts_at_fatal_last)
qed

text \<open>
  Claim C6 as stated fails for the sentinels, which \<^verbatim>\<open>filepath.Walk\<close>
  consumes: in the second example the callback returns \<^verbatim>\<open>SkipDir\<close> for
  \<open>/r/a/x.txt\<close>, after which \<open>/r/b.txt\<close> is still visited and reported,
  and the walk returns no error.
\<close>

theorem C6_skipdir_from_callback_is_consumed:
  "FoundFileFn cfg_B = Some (\<lambda>r. Some SkipDir) \<and>
   FindUniqueFiles env_B cfg_B =
     (None,
      [EvAbs ''/r'', EvLstat ''/r'', EvReadDir ''/r'',
       EvVisit ''/r'' (Some \<lparr>Mode = ModeDir\<rparr>) None,
       EvLstat ''/r/a'', EvReadDir ''/r/a'',
       EvVisit ''/r/a'' (Some \<lparr>Mode = ModeDir\<rparr>) None,
       EvLstat ''/r/a/x.txt'',
       EvVisit ''/r/a/x.txt'' (Some \<lparr>Mode = ModeFile Regular\<rparr>) None,
       EvInclude ''/r/a/x.txt'', EvHashFile ''/r/a/x.txt'' (Inr ''78''),
       EvFound report_x,
       EvLstat ''/r/b.txt'',
       EvVisit ''/r/b.txt'' (Some \<lparr>Mode = ModeFile Regular\<rparr>) None,
       EvInclude ''/r/b.txt'', EvHashFile ''/r/b.txt'' (Inr ''62''),
       EvFound \<lparr>AlreadySeen = False, FilePath = ''/r/b.txt'', PreviousFilePath = [],
                ParentDirPath = ''/r'', Hash = ''62'',
                Info = \<lparr>Mode = ModeFile Regular\<rparr>, AbsSearchDirPath = ''/r''\<rparr>])"
  by (simp add: eval_defs env_B_def cfg_B_def report_x_def)

text \<open>With an ordinary error the walk of the second example stops at \<open>/r/a/x.txt\<close>.\<close>

theorem C6_callback_failure_aborts_witness:
  "FoundFileFn (cfg_B\<lparr>FoundFileFn := Some (\<lambda>r. Some (Errorf ''stop''))\<rparr>)
     = Some (\<lambda>r. Some (Errorf ''stop'')) \<and>
   FindUniqueFiles env_B (cfg_B\<lparr>FoundFileFn := Some (\<lambda>r. Some (Errorf ''stop''))\<rparr>) =
     (Some (Errorf ''stop''),
      [EvAbs ''/r'', EvLstat ''/r'', EvReadDir ''/r'',
       EvVisit ''/r'' (Some \<lparr>Mode = ModeDir\<rparr>) None,
       EvLstat ''/r/a'', EvReadDir ''/r/a'',
       EvVisit ''/r/a'' (Some \<lparr>Mode = ModeDir\<rparr>) None,
       EvLstat ''/r/a/x.txt'',
       EvVisit ''/r/a/x.txt'' (Some \<lparr>Mode = ModeFile Regular\<rparr>) None,
       EvInclude ''/r/a/x.txt'', EvHashFile ''/r/a/x.txt'' (Inr ''78'')]
      @ EvFound report_x # [])"
proof -
  let ?cfg = "cfg_B\<lparr>FoundFileFn := Some (\<lambda>r. Some (Errorf ''stop''))\<rparr>"
  let ?pre = "[EvAbs ''/r'', EvLstat ''/r'', EvReadDir ''/r'',
       EvVisit ''/r'' (Some \<lparr>Mode = ModeDir\<rparr>) None,
       EvLstat ''/r/a'', EvReadDir ''/r/a'',
       EvVisit ''/r/a'' (Some \<lparr>Mode = ModeDir\<rparr>) None,
       EvLstat ''/r/a/x.txt'',
       EvVisit ''/r/a/x.txt'' (Some \<lparr>Mode = ModeFile Regular\<rparr>) None,
       EvInclude ''/r/a/x.txt'', EvHashFile ''/r/a/x.txt'' (Inr ''78'')]"
  have f: "FoundFileFn ?cfg = Some (\<lambda>r. Some (Errorf ''stop''))" by simp
  have t: "snd (FindUniqueFiles env_B ?cfg) =
             ?pre @ EvFound report_x # drop 12 (snd (FindUniqueFiles env_B ?cfg))"
    by (simp add: eval_defs env_B_def cfg_B_def report_x_def)
  from C6_callback_failure_aborts[OF prod.collapse[symmetric] f t]
  have "drop 12 (snd (FindUniqueFiles env_B ?cfg)) = [] \<and>
        fst (FindUniqueFiles env_B ?cfg) = Some (Errorf ''stop'')"
    by simp
  with t have "FindUniqueFiles env_B ?cfg = (Some (Errorf ''stop''), ?pre @ EvFound report_x # [])"
    by (metis prod.collapse)
  with f show ?thesis by blast
qed

section \<open>A file that cannot be hashed\<close>

lemma walkFn_hash_event:
  "walkFn env w p i e = (r, w', evs) \<Longrightarrow> EvHashFile q h \<in> set evs \<Longrightarrow>
     h = hashFile env q (pickHasher env (config w))"
  by (auto simp: walkFn_def fileWalkFunc_def report_def
           split: option.splits if_splits sum.splits)

lemma search_hash_event:
  assumes "search env w = (r, w', evs)" and "EvHashFile q h \<in> set evs"
  shows "h = hashFile env q (pickHasher env (config w))"
proof -
  let ?R = "\<lambda>w evs w'. config w' = config w \<and>
     (EvHashFile q h \<in> set evs \<longrightarrow> h = hashFile env q (pickHasher env (config w)))"
  have "?R w evs w'"
  proof (rule search_trace_rel[where R = ?R, OF _ _ _ _ _ assms(1)])
    fix w p i e r w' evs
    assume "walkFn env w p i e = (r, w', evs)"
    then show "?R w evs w'"
      using walkFn_hash_event walkFn_frame by blast
  qed auto
  with assms(2) show ?thesis by simp
qed

lemma hash_failure_last:
  assumes "FindUniqueFiles env cfg = (res, trace)"
    and "trace = pre @ EvHashFile p h # post"
    and "fs_file env p = OpenFails e \<or> fs_file env p = ReadFails e"
  shows "h = Inl e \<and> post = [] \<and> res = Some (hash_error p e)"
proof -
  have h: "h = Inl e"
  proof (cases rule: FindUniqueFiles_cases[of cfg env])
    case (invalid e')
    with assms(1,2) show ?thesis by simp
  next
    case (unresolved e')
    with assms(1,2) show ?thesis by (auto simp: Cons_eq_append_conv)
  next
    case (walked root r w' evs)
    with assms(1,2) have "EvHashFile p h \<in> set evs"
      by (auto simp: Cons_eq_append_conv)
    from search_hash_event[OF walked(4) this] assms(3) show ?thesis
      by (auto simp: hashFile_def)
  qed
  then have "fatal_error cfg (EvHashFile p h) = Some (hash_error p e)"
    by (simp add: fatal_error_def)
  with FindUniqueFiles_aborts[OF assms(1)] assms(2)
  have "post = [] \<and> res = Some (hash_error p e)"
    by (auto dest: aborts_at_fatal_last)
  with h show ?thesis by simp
qed

lemma walkFn_accepted_hashed:
  assumes "walkFn env w p i e = (r, w', evs)"
    and "\<not> AllowDupes (config w)" and "IncludeFileFn (config w) = Some accept"
    and "EvInclude q \<in> set evs" and "accept q"
  shows "\<exists>h. EvHashFile q h \<in> set evs"
  using assms
  by (auto simp: walkFn_def fileWalkFunc_def report_def
           split: option.splits if_splits sum.splits)

lemma search_accepted_hashed:
  assumes "search env w = (r, w', evs)"
    and "\<not> AllowDupes (config w)" and "IncludeFileFn (config w) = Some accept"
    and "EvInclude q \<in> set evs" and "accept q"
  shows "\<exists>h. EvHashFile q h \<in> set evs"
proof -
  let ?R = "\<lambda>w evs w'. config w' = config w \<and>
     (\<not> AllowDupes (config w) \<and> IncludeFileFn (config w) = Some accept \<and>
      EvInclude q \<in> set evs \<longrightarrow> (\<exists>h. EvHashFile q h \<in> set evs))"
  have "?R w evs w'"
  proof (rule search_trace_rel[where R = ?R, OF _ _ _ _ _ assms(1)])
    fix w p i e r w' evs
    assume "walkFn env w p i e = (r, w', evs)"
    then show "?R w evs w'"
      using walkFn_accepted_hashed[where accept = accept and q = q] assms(5) walkFn_frame
      by blast
  qed auto
  with assms(2,3,4) show ?thesis by simp
qed

text \<open>
  Claim C7. With duplicate tracking, let the include predicate be called
  with a path that it accepts and that cannot be opened or read, \<open>e\<close> being
  the cause. Then the failed call of \<^verbatim>\<open>hashFile\<close> for that path is the last
  event of the walk: nothing is visited or reported after it. The walk
  returns the error built with \<^verbatim>\<open>%w\<close>, which unwraps to \<open>e\<close> and whose
  message contains the path.
\<close>

theorem C7_hash_failure_aborts:
  assumes "FindUniqueFiles env cfg = (res, trace)"
    and "\<not> AllowDupes cfg"
    and "IncludeFileFn cfg = Some accept"
    and "EvInclude p \<in> set trace" and "accept p"
    and "fs_file env p = OpenFails e \<or> fs_file env p = ReadFails e"
  shows "res = Some (Wrapf (''failed to hash file '' @ [CHR 0x27] @ p @ [CHR 0x27] @ '' - ''
                             @ Error_msg e) e) \<and>
         (\<exists>pre. trace = pre @ [EvHashFile p (Inl e)]) \<and>
         Unwrap (the res) = Some e \<and>
         (\<exists>a b. Error_msg (the res) = a @ p @ b)"
proof -
  have "\<exists>h. EvHashFile p h \<in> set trace"
  proof (cases rule: FindUniqueFiles_cases[of cfg env])
    case (invalid e')
    with assms(1,4) show ?thesis by simp
  next
    case (unresolved e')
    with assms(1,4) show ?thesis by auto
  next
    case (walked root r w' evs)
    with assms(1,4) have "EvInclude p \<in> set evs" by auto
    from search_accepted_hashed[where accept = accept and q = p, OF walked(4)]
      assms(2,3,5) this
    have "\<exists>h. EvHashFile p h \<in> set evs" by simp
    with walked(5) assms(1) show ?thesis by auto
  qed
  then obtain h pre post where t: "trace = pre @ EvHashFile p h # post"
    by (auto dest: split_list)
  from hash_failure_last[OF assms(1) t assms(6)]
  have h: "h = Inl e" and post: "post = []" and res: "res = Some (hash_error p e)"
    by simp_all
  have "Error_msg (hash_error p e) =
      (''failed to hash file '' @ [CHR 0x27]) @ p @ ([CHR 0x27] @ '' - '' @ Error_msg e)"
    by (simp add: hash_error_def)
  then have "\<exists>a b. Error_msg (hash_error p e) = a @ p @ b" by blast
  with t h post res show ?thesis by (simp add: hash_error_def)
qed

text \<open>In the third example \<open>/r/b.txt\<close> is accepted and cannot be read.\<close>

theorem C7_hash_failure_aborts_witness:
  "\<not> AllowDupes cfg_A \<and>
   IncludeFileFn cfg_A = Some (\<lambda>p. True) \<and>
   EvInclude ''/r/b.txt'' \<in> set (snd (FindUniqueFiles env_C cfg_A)) \<and>
   fs_file env_C ''/r/b.txt'' = ReadFails (Errorf ''input/output error'') \<and>
   fst (FindUniqueFiles env_C cfg_A) =
     Some (Wrapf (''failed to hash file '' @ [CHR 0x27] @ ''/r/b.txt'' @ [CHR 0x27] @ '' - ''
                  @ ''input/output error'') (Errorf ''input/output error'')) \<and>
   last (snd (FindUniqueFiles env_C cfg_A)) =
     EvHashFile ''/r/b.txt'' (Inl (Errorf ''input/output error'')) \<and>
   Unwrap (the (fst (FindUniqueFiles env_C cfg_A))) = Some (Errorf ''input/output error'')"
proof -
  have a: "\<not> AllowDupes cfg_A" and i: "IncludeFileFn cfg_A = Some (\<lambda>p. True)"
    by (simp_all add: cfg_A_def)
  have v: "EvInclude ''/r/b.txt'' \<in> set (snd (FindUniqueFiles env_C cfg_A))"
    by (simp add: eval_defs env_C_def env_A_def cfg_A_def)
  have f: "fs_file env_C ''/r/b.txt'' = ReadFails (Errorf ''input/output error'')"
    by (simp add: env_C_def env_A_def)
  then have f': "fs_file env_C ''/r/b.txt'' = OpenFails (Errorf ''input/output error'') \<or>
                 fs_file env_C ''/r/b.txt'' = ReadFails (Errorf ''input/output error'')"
    by simp
  from C7_hash_failure_aborts[where accept = "\<lambda>p. True" and p = "''/r/b.txt''",
      OF prod.collapse[symmetric] a i v TrueI f']
  have r: "fst (FindUniqueFiles env_C cfg_A) =
     Some (Wrapf (''failed to hash file '' @ [CHR 0x27] @ ''/r/b.txt'' @ [CHR 0x27] @ '' - ''
                  @ ''input/output error'') (Errorf ''input/output error''))"
    and l: "\<exists>pre. snd (FindUniqueFiles env_C cfg_A) =
              pre @ [EvHashFile ''/r/b.txt'' (Inl (Errorf ''input/output error''))]"
    and u: "Unwrap (the (fst (FindUniqueFiles env_C cfg_A))) = Some (Errorf ''input/output error'')"
    by simp_all
  from l have "last (snd (FindUniqueFiles env_C cfg_A)) =
     EvHashFile ''/r/b.txt'' (Inl (Errorf ''input/output error''))"
    by auto
  with a i v f r u show ?thesis by blast
qed

section \<open>Construction\<close>

text \<open>
  Claim C8. When \<^verbatim>\<open>IncludeFileFn\<close> or \<^verbatim>\<open>FoundFileFn\<close> is nil, construction
  fails with the validation error of \<^verbatim>\<open>Validate\<close>, and the trace is empty:
  nothing of the platform has been called, not even \<^verbatim>\<open>filepath.Abs\<close>. The
  same holds for \<^verbatim>\<open>FindUniqueFiles\<close>, which returns that error.
\<close>

theorem C8_validation_precedes_filesystem:
  "IncludeFileFn cfg = None \<or> FoundFileFn cfg = None \<Longrightarrow>
     newFileWalker env cfg =
       (Inl (Errorf (if IncludeFileFn cfg = None then ''IncludeFileFn cannot be nil''
                     else ''FoundFileFn cannot be nil'')), []) \<and>
     FindUniqueFiles env cfg =
       (Some (Errorf (if IncludeFileFn cfg = None then ''IncludeFileFn cannot be nil''
                      else ''FoundFileFn cannot be nil'')), [])"
  by (auto simp: FindUniqueFiles_def newFileWalker_def Validate_def)

text \<open>Both missing callbacks, on the example configuration.\<close>

theorem C8_validation_precedes_filesystem_witness:
  "newFileWalker env_A (cfg_A\<lparr>IncludeFileFn := None\<rparr>) =
     (Inl (Errorf ''IncludeFileFn cannot be nil''), []) \<and>
   FindUniqueFiles env_A (cfg_A\<lparr>IncludeFileFn := None\<rparr>) =
     (Some (Errorf ''IncludeFileFn cannot be nil''), []) \<and>
   newFileWalker env_A (cfg_A\<lparr>FoundFileFn := None\<rparr>) =
     (Inl (Errorf ''FoundFileFn cannot be nil''), []) \<and>
   FindUniqueFiles env_A (cfg_A\<lparr>FoundFileFn := None\<rparr>) =
     (Some (Errorf ''FoundFileFn cannot be nil''), [])"
  using C8_validation_precedes_filesystem[of "cfg_A\<lparr>IncludeFileFn := None\<rparr>" env_A]
    C8_validation_precedes_filesystem[of "cfg_A\<lparr>FoundFileFn := None\<rparr>" env_A]
  by (simp add: cfg_A_def)

section \<open>The dedup index without duplicate tracking\<close>

lemma walkFn_AllowDupes_same:
  assumes "AllowDupes (config w)" and "walkFn env w p i e = (r, w', evs)"
  shows "w' = w" and "walkFn env (w\<lparr>fileHashesToPrevious := m\<rparr>) p i e
                    = (r, w\<lparr>fileHashesToPrevious := m\<rparr>, evs)"
  using assms
  by (auto simp: walkFn_def fileWalkFunc_def report_def
           split: option.splits if_splits sum.splits)

lemma walk_AllowDupes_same:
  "walk env w path ent = (r, w', evs) \<Longrightarrow> AllowDupes (config w) \<Longrightarrow>
     w' = w \<and> walk env (w\<lparr>fileHashesToPrevious := m\<rparr>) path ent
                 = (r, w\<lparr>fileHashesToPrevious := m\<rparr>, evs)"
  "walkNames env w path names = (r, w', evs) \<Longrightarrow> AllowDupes (config w) \<Longrightarrow>
     w' = w \<and> walkNames env (w\<lparr>fileHashesToPrevious := m\<rparr>) path names
                 = (r, w\<lparr>fileHashesToPrevious := m\<rparr>, evs)"
proof (induction w path ent and w path names arbitrary: r w' evs and r w' evs
       rule: walk_induct[where env = env])
  case (NonDir w path t)
  then show ?case
    using walkFn_AllowDupes_same(1)[of w env path _ None r w' evs]
      walkFn_AllowDupes_same(2)[of w env path _ None r w' evs m] by simp
next
  case (Directory w path rderr names)
  from Directory.prems(1) show ?case
  proof (cases rule: walk_DirectoryE)
    case (stop evs1)
    with walkFn_AllowDupes_same(1)[OF Directory.prems(2) stop(1)]
      walkFn_AllowDupes_same(2)[OF Directory.prems(2) stop(1), where m = m]
    show ?thesis by (auto simp: walk.simps(2))
  next
    case (descend w1 evs1 evs2)
    note s = walkFn_AllowDupes_same(1)[OF Directory.prems(2) descend(1)]
      walkFn_AllowDupes_same(2)[OF Directory.prems(2) descend(1), where m = m]
    from Directory.IH[OF descend(1,2,3)] s(1) Directory.prems(2)
    have "w' = w \<and> walkNames env (w\<lparr>fileHashesToPrevious := m\<rparr>) path names
                 = (r, w\<lparr>fileHashesToPrevious := m\<rparr>, evs2)" by simp
    with s descend show ?thesis by (simp add: walk.simps(2))
  qed
next
  case (Nil w path)
  then show ?case by simp
next
  case (LstatFails w path name e rest)
  from LstatFails.prems(1) show ?case
  proof (cases rule: walkNames_LstatFailsE)
    case (stop evs1)
    with walkFn_AllowDupes_same(1)[OF LstatFails.prems(2) stop(1)]
      walkFn_AllowDupes_same(2)[OF LstatFails.prems(2) stop(1), where m = m]
    show ?thesis by (auto simp: walkNames.simps(2))
  next
    case (continue err w1 evs1 evs2)
    note s = walkFn_AllowDupes_same(1)[OF LstatFails.prems(2) continue(1)]
      walkFn_AllowDupes_same(2)[OF LstatFails.prems(2) continue(1), where m = m]
    from LstatFails.IH[OF continue(1,2,3)] s(1) LstatFails.prems(2)
    have "w' = w \<and> walkNames env (w\<lparr>fileHashesToPrevious := m\<rparr>) path rest
                 = (r, w\<lparr>fileHashesToPrevious := m\<rparr>, evs2)" by simp
    with s continue show ?thesis by (auto simp: walkNames.simps(2))
  qed
next
  case (Entry w path name ent rest)
  from Entry.prems(1) show ?case
  proof (cases rule: walkNames_EntryE)
    case (stop evs1)
    with Entry.IH(1)[OF stop(1) Entry.prems(2)]
    show ?thesis by (auto simp: walkNames.simps(3))
  next
    case (continue err w1 evs1 evs2)
    note s = Entry.IH(1)[OF continue(1) Entry.prems(2)]
    from Entry.IH(2)[OF continue(1,2,3)] s Entry.prems(2)
    have "w' = w \<and> walkNames env (w\<lparr>fileHashesToPrevious := m\<rparr>) path rest
                 = (r, w\<lparr>fileHashesToPrevious := m\<rparr>, evs2)" by simp
    with s continue show ?thesis by (auto simp: walkNames.simps(3))
  qed
qed

lemma search_AllowDupes_same:
  assumes "search env w = (r, w', evs)" and "AllowDupes (config w)"
  shows "w' = w \<and> search env (w\<lparr>fileHashesToPrevious := m\<rparr>)
                 = (r, w\<lparr>fileHashesToPrevious := m\<rparr>, evs)"
proof (cases "fs_tree env (absTargetDirPath w)")
  case (LstatFails e)
  then obtain r1 evs1 where a: "walkFn env w (absTargetDirPath w) None (Some e) = (r1, w', evs1)"
    and b: "r = (if r1 = Some SkipDir \<or> r1 = Some SkipAll then None else r1)"
           "evs = EvLstat (absTargetDirPath w) # evs1"
    using assms(1) by (auto simp: search_def Walk_def split: prod.splits)
  from walkFn_AllowDupes_same(1)[OF assms(2) a]
    walkFn_AllowDupes_same(2)[OF assms(2) a, where m = m] LstatFails b
  show ?thesis by (simp add: search_def Walk_def)
next
  case (Entry ent)
  then obtain r1 evs1 where a: "walk env w (absTargetDirPath w) ent = (r1, w', evs1)"
    and b: "r = (if r1 = Some SkipDir \<or> r1 = Some SkipAll then None else r1)"
           "evs = EvLstat (absTargetDirPath w) # evs1"
    using assms(1) by (auto simp: search_def Walk_def split: prod.splits)
  from walk_AllowDupes_same(1)[OF a assms(2), where m = m] Entry b
  show ?thesis by (simp add: search_def Walk_def)
qed

text \<open>
  Claim C9. With \<^verbatim>\<open>AllowDupes\<close> set, the index of a fresh walker is empty
  and is empty after the walk; the walk does not read it either: started
  with any other index \<open>m\<close> it returns the same result and the same trace and
  leaves \<open>m\<close> in place. Each single call of the walk function leaves the
  index empty as well.
\<close>

theorem C9_allow_dupes_index_untouched:
  assumes "AllowDupes cfg"
    and "newFileWalker env cfg = (Inr w, evs0)"
    and "search env w = (res, w', trace)"
  shows "fileHashesToPrevious w = Map.empty \<and>
         fileHashesToPrevious w' = Map.empty \<and>
         (\<forall>m. search env (w\<lparr>fileHashesToPrevious := m\<rparr>)
                = (res, w'\<lparr>fileHashesToPrevious := m\<rparr>, trace)) \<and>
         (\<forall>p i e. fileHashesToPrevious (fst (snd (fileWalkFunc env w p i e))) = Map.empty)"
proof -
  from assms(2) have w: "config w = cfg" "fileHashesToPrevious w = Map.empty"
    by (auto simp: newFileWalker_def split: option.splits sum.splits)
  with assms(1) have ad: "AllowDupes (config w)" by simp
  from search_AllowDupes_same[OF assms(3) ad]
  have same: "w' = w" and indep: "\<And>m. search env (w\<lparr>fileHashesToPrevious := m\<rparr>)
                = (res, w\<lparr>fileHashesToPrevious := m\<rparr>, trace)" by auto
  have step: "fileHashesToPrevious (fst (snd (fileWalkFunc env w p i e))) = Map.empty" for p i e
    using ad w(2)
    by (auto simp: fileWalkFunc_def report_def split: option.splits if_splits sum.splits)
  from same indep w(2) step show ?thesis by simp
qed

text \<open>
  On the example: the index stays empty, and a walk started with an index
  that already holds the digest of \<open>a.txt\<close> behaves the same.
\<close>

theorem C9_allow_dupes_index_untouched_witness:
  "AllowDupes (cfg_A\<lparr>AllowDupes := True\<rparr>) \<and>
   newFileWalker env_A (cfg_A\<lparr>AllowDupes := True\<rparr>) =
     (Inr \<lparr>absTargetDirPath = ''/r'', fileHashesToPrevious = Map.empty,
           config = cfg_A\<lparr>AllowDupes := True\<rparr>\<rparr>, [EvAbs ''/r'']) \<and>
   fileHashesToPrevious
     (fst (snd (search env_A \<lparr>absTargetDirPath = ''/r'', fileHashesToPrevious = Map.empty,
                               config = cfg_A\<lparr>AllowDupes := True\<rparr>\<rparr>))) = Map.empty \<and>
   snd (snd (search env_A \<lparr>absTargetDirPath = ''/r'',
                            fileHashesToPrevious = [''68'' \<mapsto> ''/z''],
                            config = cfg_A\<lparr>AllowDupes := True\<rparr>\<rparr>)) =
   snd (snd (search env_A \<lparr>absTargetDirPath = ''/r'', fileHashesToPrevious = Map.empty,
                            config = cfg_A\<lparr>AllowDupes := True\<rparr>\<rparr>))"
proof -
  let ?cfg = "cfg_A\<lparr>AllowDupes := True\<rparr>"
  let ?w = "\<lparr>absTargetDirPath = ''/r'', fileHashesToPrevious = Map.empty, config = ?cfg\<rparr>"
  have a: "AllowDupes ?cfg" by simp
  have n: "newFileWalker env_A ?cfg = (Inr ?w, [EvAbs ''/r''])"
    by (simp add: newFileWalker_def Validate_def env_A_def cfg_A_def)
  have s: "search env_A ?w = (fst (search env_A ?w), fst (snd (search env_A ?w)),
                              snd (snd (search env_A ?w)))" by simp
  from C9_allow_dupes_index_untouched[OF a n s]
  have i: "fileHashesToPrevious (fst (snd (search env_A ?w))) = Map.empty"
    and j: "search env_A (?w\<lparr>fileHashesToPrevious := [''68'' \<mapsto> ''/z'']\<rparr>) =
              (fst (search env_A ?w),
               (fst (snd (search env_A ?w)))\<lparr>fileHashesToPrevious := [''68'' \<mapsto> ''/z'']\<rparr>,
               snd (snd (search env_A ?w)))"
    by blast+
  from j have "snd (snd (search env_A \<lparr>absTargetDirPath = ''/r'',
                            fileHashesToPrevious = [''68'' \<mapsto> ''/z''],
                            config = ?cfg\<rparr>)) = snd (snd (search env_A ?w))"
    by simp
  with a n i show ?thesis by blast
qed

section \<open>AlreadySeen and PreviousFilePath\<close>

lemma TrimPrefix_nonempty: "length root < length p \<Longrightarrow> TrimPrefix p root \<noteq> []"
  by (auto simp: TrimPrefix_def)

lemma walk_visits_below:
  "walk env w path ent = (r, w', evs) \<Longrightarrow> names_ok ent \<Longrightarrow>
     EvVisit q j f \<in> set evs \<Longrightarrow> length path \<le> length q"
  "walkNames env w path names = (r, w', evs) \<Longrightarrow> names_ok_list names \<Longrightarrow>
     EvVisit q j f \<in> set evs \<Longrightarrow> length path < length q"
proof (induction w path ent and w path names arbitrary: r w' evs and r w' evs
       rule: walk_induct[where env = env])
  case (NonDir w path t)
  then show ?case by (auto dest: walkFn_visit_path)
next
  case (Directory w path rderr names)
  from Directory.prems(1) show ?case
  proof (cases rule: walk_DirectoryE)
    case (stop evs1)
    with Directory.prems(3) show ?thesis by (auto dest: walkFn_visit_path)
  next
    case (descend w1 evs1 evs2)
    with Directory.prems(2,3) Directory.IH[OF descend(1,2,3)] show ?thesis
      by (fastforce dest: walkFn_visit_path)
  qed
next
  case (Nil w path)
  then show ?case by simp
next
  case (LstatFails w path name e rest)
  from LstatFails.prems(2) have n: "name \<noteq> []" and ok: "names_ok_list rest" by simp_all
  from LstatFails.prems(1) show ?case
  proof (cases rule: walkNames_LstatFailsE)
    case (stop evs1)
    with LstatFails.prems(3) Join_longer[OF n, of path] show ?thesis
      by (auto dest: walkFn_visit_path)
  next
    case (continue err w1 evs1 evs2)
    with LstatFails.prems(3) Join_longer[OF n, of path]
      LstatFails.IH[OF continue(1,2,3) ok]
    show ?thesis by (auto dest: walkFn_visit_path)
  qed
next
  case (Entry w path name ent rest)
  from Entry.prems(2) have n: "name \<noteq> []" and ok1: "names_ok ent"
    and ok: "names_ok_list rest" by simp_all
  from Entry.prems(1) show ?case
  proof (cases rule: walkNames_EntryE)
    case (stop evs1)
    with Entry.prems(3) Join_longer[OF n, of path] Entry.IH(1)[OF stop(1) ok1]
    show ?thesis by fastforce
  next
    case (continue err w1 evs1 evs2)
    with Entry.prems(3) Join_longer[OF n, of path] Entry.IH(1)[OF continue(1) ok1]
      Entry.IH(2)[OF continue(1,2,3) ok]
    show ?thesis by fastforce
  qed
qed

lemma walkFn_seen_iff:
  assumes "walkFn env w p i e = (r, w', evs)"
    and "length (absTargetDirPath w) < length p"
    and "values_nonempty (fileHashesToPrevious w)"
  shows "values_nonempty (fileHashesToPrevious w') \<and> seen_iff_previous evs"
  using assms TrimPrefix_nonempty[OF assms(2)]
  by (auto simp: walkFn_def fileWalkFunc_def report_def values_nonempty_def
                 seen_iff_previous_def
           split: option.splits if_splits sum.splits) blast+

lemma walkFn_empty_index:
  assumes "walkFn env w p i e = (r, w', evs)"
    and "fileHashesToPrevious w = Map.empty"
  shows "seen_iff_previous evs"
  using assms
  by (auto simp: walkFn_def fileWalkFunc_def report_def seen_iff_previous_def
           split: option.splits if_splits sum.splits)

lemma walkFn_directory:
  assumes "walkFn env w p (Some \<lparr>Mode = ModeDir\<rparr>) e = (r, w', evs)"
  shows "w' = w \<and> evs = [EvVisit p (Some \<lparr>Mode = ModeDir\<rparr>) e]"
  using assms
  by (auto simp: walkFn_def fileWalkFunc_def IsDir_def split: option.splits if_splits)

lemma walkNames_seen_iff:
  assumes "walkNames env w path names = (r, w', evs)"
    and "\<forall>q j f. EvVisit q j f \<in> set evs \<longrightarrow> length (absTargetDirPath w) < length q"
    and "values_nonempty (fileHashesToPrevious w)"
  shows "seen_iff_previous evs"
proof -
  let ?R = "\<lambda>(w :: statefulFileWalker) evs (w' :: statefulFileWalker).
     config w' = config w \<and> absTargetDirPath w' = absTargetDirPath w \<and>
     ((\<forall>q j f. EvVisit q j f \<in> set evs \<longrightarrow> length (absTargetDirPath w) < length q) \<longrightarrow>
      values_nonempty (fileHashesToPrevious w) \<longrightarrow>
        values_nonempty (fileHashesToPrevious w') \<and> seen_iff_previous evs)"
  have "?R w evs w'"
  proof (rule walk_trace_rel(2)[where R = ?R, OF _ _ _ _ _ assms(1)])
    fix w p i e r w' evs
    assume a: "walkFn env w p i e = (r, w', evs)"
    then have "EvVisit p i e \<in> set evs" by (auto simp: walkFn_def split: prod.splits)
    with a show "?R w evs w'"
      using walkFn_seen_iff[OF a] walkFn_frame[OF a] by blast
  next
    fix w a w1 b w2
    assume "?R w a w1" and "?R w1 b w2"
    then show "?R w (a @ b) w2"
      by (auto simp: seen_iff_previous_def)
  qed (auto simp: seen_iff_previous_def)
  with assms(2,3) show ?thesis by blast
qed

lemma search_seen_iff:
  assumes "search env w = (r, w', evs)"
    and "fileHashesToPrevious w = Map.empty"
    and "names_ok_node (fs_tree env (absTargetDirPath w))"
  shows "seen_iff_previous evs"
proof -
  let ?root = "absTargetDirPath w"
  have plain: "seen_iff_previous (ev # evs') = seen_iff_previous evs'"
    if "\<forall>r. ev \<noteq> EvFound r" for ev evs'
    using that by (auto simp: seen_iff_previous_def)
  obtain err evs1 where
    inner: "(case fs_tree env ?root of
               LstatFails e \<Rightarrow> walkFn env w ?root None (Some e)
             | Entry ent \<Rightarrow> walk env w ?root ent) = (err, w', evs1)"
    and evs: "evs = EvLstat ?root # evs1"
    using assms(1) by (auto simp: search_def Walk_def split: prod.splits)
  have "seen_iff_previous evs1"
  proof (cases "fs_tree env ?root")
    case (LstatFails e)
    with inner assms(2) show ?thesis by (auto dest: walkFn_empty_index)
  next
    case (Entry ent)
    with inner have run: "walk env w ?root ent = (err, w', evs1)" by simp
    show ?thesis
    proof (cases ent)
      case (NonDir t)
      with run assms(2) show ?thesis by (auto dest: walkFn_empty_index)
    next
      case (Directory rderr names)
      from run[unfolded Directory] show ?thesis
      proof (cases rule: walk_DirectoryE)
        case (stop evs2)
        with walkFn_directory[OF stop(1)] show ?thesis
          by (simp add: seen_iff_previous_def)
      next
        case (descend w1 evs2 evs3)
        from walkFn_directory[OF descend(1)]
        have w1: "w1 = w" and evs2: "evs2 = [EvVisit ?root (Some \<lparr>Mode = ModeDir\<rparr>) None]"
          by simp_all
        from assms(3) Entry Directory have ok: "names_ok_list names" by simp
        have "seen_iff_previous evs3"
        proof (rule walkNames_seen_iff[OF descend(3)])
          show "\<forall>q j f. EvVisit q j f \<in> set evs3 \<longrightarrow> length (absTargetDirPath w1) < length q"
            using walk_visits_below(2)[OF descend(3) ok] w1 by blast
          show "values_nonempty (fileHashesToPrevious w1)"
            using w1 assms(2) by (simp add: values_nonempty_def)
        qed
        with descend(4) evs2 show ?thesis by (simp add: plain)
      qed
    qed
  qed
  with evs show ?thesis by (simp add: plain)
qed

text \<open>
  Claim C10. On a filesystem whose entry names are non-empty, every record
  handed to the found callback has \<^verbatim>\<open>AlreadySeen = true\<close> exactly when its
  \<^verbatim>\<open>PreviousFilePath\<close> is not the empty string. (Only the root itself
  trims to the empty string, and when the root is a file it is the only entry
  of the walk.)
\<close>

theorem C10_seen_iff_previous_path:
  assumes "FindUniqueFiles env cfg = (res, trace)"
    and "\<forall>p. names_ok_node (fs_tree env p)"
    and "EvFound r \<in> set trace"
  shows "AlreadySeen r \<longleftrightarrow> PreviousFilePath r \<noteq> []"
proof (cases rule: FindUniqueFiles_cases[of cfg env])
  case (invalid e)
  with assms(1,3) show ?thesis by simp
next
  case (unresolved e)
  with assms(1,3) show ?thesis by auto
next
  case (walked root r' w' evs)
  from search_seen_iff[OF walked(4)] assms(2) have "seen_iff_previous evs" by simp
  moreover from walked(5) assms(1,3) have "EvFound r \<in> set evs" by auto
  ultimately show ?thesis by (simp add: seen_iff_previous_def)
qed

text \<open>Both records of the first example.\<close>

theorem C10_seen_iff_previous_path_witness:
  "(\<forall>p. names_ok_node (fs_tree env_A p)) \<and>
   EvFound report_a \<in> set (snd (FindUniqueFiles env_A cfg_A)) \<and>
   EvFound report_b \<in> set (snd (FindUniqueFiles env_A cfg_A)) \<and>
   AlreadySeen report_a = (PreviousFilePath report_a \<noteq> []) \<and>
   AlreadySeen report_b = (PreviousFilePath report_b \<noteq> []) \<and>
   AlreadySeen report_b \<and> \<not> AlreadySeen report_a"
proof -
  have a: "EvFound report_a \<in> set (snd (FindUniqueFiles env_A cfg_A))"
    and b: "EvFound report_b \<in> set (snd (FindUniqueFiles env_A cfg_A))"
    by (simp_all add: scenario_A)
  have s: "AlreadySeen report_b \<and> \<not> AlreadySeen report_a"
    by (simp add: report_a_def report_b_def)
  from C10_seen_iff_previous_path[OF prod.collapse[symmetric] scenario_A_names a]
    C10_seen_iff_previous_path[OF prod.collapse[symmetric] scenario_A_names b]
    scenario_A_names a b s
  show ?thesis by blast
qed

end
